theory Spec2Isabelle
  imports Main "HOL-Library.Extended_Nat" "HOL-Library.Multiset"
begin

section \<open>The pathfinding engine of the grid visualizer\<close>

text \<open>
  This theory embeds \<^verbatim>\<open>pathfinding_algorithm.py\<close> (class \<^verbatim>\<open>Pathfinder\<close>): the two
  searches \<^verbatim>\<open>dijkstra\<close> and \<^verbatim>\<open>a_star_search\<close>, \<^verbatim>\<open>generate_maze\<close>,
  \<^verbatim>\<open>__manhatten_distance\<close> and \<^verbatim>\<open>__reconstruct_path\<close>.

  A vertex is a Python object compared by identity; the type variable \<open>'v\<close> stands for
  that identity. Python's \<^verbatim>\<open>None\<close> is the value \<open>None\<close> of \<open>'v option\<close>: the caller
  (\<^verbatim>\<open>gui.py\<close>, line 128) builds a \<^verbatim>\<open>Pathfinder\<close> whose start and destination may be
  \<^verbatim>\<open>None\<close>.
\<close>

subsection \<open>Vertices\<close>

text \<open>
  Modelled from the spec: the class \<^verbatim>\<open>Vertex\<close> (module \<^verbatim>\<open>vertex.py\<close> is imported by
  the sources but is not among them). A vertex has an immutable position, a state out of
  seven, and a cached list of neighbours that the caller recomputes before a search and
  that the pathfinder only reads. The setters \<^verbatim>\<open>make_...\<close> change the state and nothing else.
\<close>

datatype vstate = Default | Wall | Start | Destination | Visiting | Visited | Path

record 'v vertices =
  get_position :: "'v \<Rightarrow> int \<times> int"
  neighbors :: "'v \<Rightarrow> 'v list"

type_synonym 'v states = "'v \<Rightarrow> vstate"

definition make_visiting :: "'v \<Rightarrow> 'v states \<Rightarrow> 'v states" where
  "make_visiting v st = st(v := Visiting)"

definition make_visited :: "'v \<Rightarrow> 'v states \<Rightarrow> 'v states" where
  "make_visited v st = st(v := Visited)"

definition make_path :: "'v \<Rightarrow> 'v states \<Rightarrow> 'v states" where
  "make_path v st = st(v := Path)"

definition make_start :: "'v \<Rightarrow> 'v states \<Rightarrow> 'v states" where
  "make_start v st = st(v := Start)"

definition make_wall :: "'v \<Rightarrow> 'v states \<Rightarrow> 'v states" where
  "make_wall v st = st(v := Wall)"

subsection \<open>The pathfinder and the state of a search\<close>

record 'v pathfinder =
  grid :: "'v list list"
  start :: "'v option"
  destination :: "'v option"

datatype error = KeyError | AttributeError | IndexError | ValueError | PygameError

datatype event = QUIT | OTHER

datatype algorithm = Dijkstra | AStar

text \<open>
  The local variables of a search, the vertex states it mutates and the part of pygame it
  talks to. \<^verbatim>\<open>dijkstra\<close> names the set of vertices in the queue \<^verbatim>\<open>visited\<close> and the
  costs \<^verbatim>\<open>distance\<close>; \<^verbatim>\<open>a_star_search\<close> names them \<^verbatim>\<open>open_set\<close> and \<^verbatim>\<open>g_score\<close> and
  has \<^verbatim>\<open>f_score\<close> in addition (\<^verbatim>\<open>dijkstra\<close> leaves that field alone). Costs are
  Python integers or \<^verbatim>\<open>float("inf")\<close>: the type \<open>enat\<close>, where \<open>\<infinity> + 1 = \<infinity>\<close> and
  \<open>\<not> \<infinity> < \<infinity>\<close> as for the float.

  \<open>queue\<close> holds the tuples \<^verbatim>\<open>(key, count, vertex)\<close> of the \<^verbatim>\<open>PriorityQueue\<close> in the order
  of their insertion. \<open>events\<close> is what the successive calls of \<^verbatim>\<open>pygame.event.get()\<close>
  are going to return (nothing once the list is used up); \<open>pygame_init\<close> is False once
  \<^verbatim>\<open>pygame.quit()\<close> has run. \<open>popped\<close> is not a variable of the program: it records the
  results of \<^verbatim>\<open>queue.get()\<close> in their order.
\<close>

record 'v search_state =
  count :: nat
  queue :: "(enat \<times> nat \<times> 'v) list"
  visited :: "'v set"
  came_from :: "'v \<rightharpoonup> 'v"
  distance :: "'v \<rightharpoonup> enat"
  f_score :: "'v \<rightharpoonup> enat"
  states :: "'v states"
  pygame_init :: bool
  events :: "event list list"
  popped :: "'v list"

subsection \<open>The priority queue\<close>

text \<open>
  \<^verbatim>\<open>queue.get()\<close> removes and returns the least tuple. Python compares tuples
  lexicographically: the key, then the count. Two entries that agree on both would make
  Python compare the vertices; \<open>entry_le\<close> takes the earlier one then (the counts of a
  search are pairwise different, see \<open>counts_ok\<close> below, so this never decides).
\<close>

fun entry_le :: "enat \<times> nat \<times> 'v \<Rightarrow> enat \<times> nat \<times> 'v \<Rightarrow> bool" where
  "entry_le (k1, c1, v1) (k2, c2, v2) = (k1 < k2 \<or> (k1 = k2 \<and> c1 \<le> c2))"

fun queue_min :: "enat \<times> nat \<times> 'v \<Rightarrow> (enat \<times> nat \<times> 'v) list \<Rightarrow> enat \<times> nat \<times> 'v" where
  "queue_min m [] = m"
| "queue_min m (e # es) = queue_min (if entry_le m e then m else e) es"

definition queue_get ::
  "(enat \<times> nat \<times> 'v) list \<Rightarrow> (enat \<times> nat \<times> 'v) \<times> (enat \<times> nat \<times> 'v) list" where
  "queue_get q = (let m = queue_min (hd q) (tl q) in (m, remove1 m q))"

subsection \<open>pygame\<close>

text \<open>
  The event loop at the head of each iteration (lines 54-56 and 116-118): every \<^verbatim>\<open>QUIT\<close>
  event calls \<^verbatim>\<open>pygame.quit()\<close>, and nothing else happens: there is no \<^verbatim>\<open>return\<close>.
  Once pygame is shut down its calls raise \<^verbatim>\<open>pygame.error\<close>; that concerns
  \<^verbatim>\<open>pygame.event.get()\<close> and \<^verbatim>\<open>GUI.draw\<close>, which draws on the window and updates the display.
\<close>

definition poll_events :: "'v search_state \<Rightarrow> error option \<times> 'v search_state" where
  "poll_events s =
     (if \<not> pygame_init s then (Some PygameError, s)
      else (None, s\<lparr>pygame_init := QUIT \<notin> set (case events s of [] \<Rightarrow> [] | es # _ \<Rightarrow> es),
                    events := tl (events s)\<rparr>))"

definition gui_draw :: "'v search_state \<Rightarrow> error option" where
  "gui_draw s = (if pygame_init s then None else Some PygameError)"

subsection \<open>Heuristic and path reconstruction\<close>

fun manhatten_distance :: "int \<times> int \<Rightarrow> int \<times> int \<Rightarrow> int" where
  "manhatten_distance (x1, y1) (x2, y2) = \<bar>x1 - x2\<bar> + \<bar>y1 - y2\<bar>"

text \<open>
  \<^verbatim>\<open>__reconstruct_path\<close> (lines 191-194): a while loop that need not end (a cyclic
  \<^verbatim>\<open>came_from\<close>), hence a partial function; \<open>None\<close> is the run that never returns. The
  first argument says whether pygame is still initialised, for the \<^verbatim>\<open>gui.draw\<close> of line 194.
\<close>

partial_function (option) reconstruct_path ::
  "bool \<Rightarrow> ('v \<rightharpoonup> 'v) \<Rightarrow> 'v \<Rightarrow> 'v states \<Rightarrow> (error option \<times> 'v states) option" where
  "reconstruct_path alive cf current st =
     (case cf current of
        None \<Rightarrow> Some (None, st)
      | Some p \<Rightarrow>
          (let st' = make_path p st
           in if alive then reconstruct_path alive cf p st'
              else Some (Some PygameError, st')))"

declare reconstruct_path.simps [code]

subsection \<open>Relaxation\<close>

text \<open>
  The body of the loop over the neighbours (lines 69-82 of \<^verbatim>\<open>dijkstra\<close>, 131-146 of
  \<^verbatim>\<open>a_star_search\<close>). The two differ in lines 136-137, which only \<^verbatim>\<open>a_star_search\<close> has,
  and in the key of the tuple put into the queue. A dictionary lookup that misses raises
  \<^verbatim>\<open>KeyError\<close>; \<^verbatim>\<open>self.__destination.get_position()\<close> raises \<^verbatim>\<open>AttributeError\<close> on
  \<^verbatim>\<open>None\<close>.
\<close>

definition push :: "enat \<Rightarrow> 'v \<Rightarrow> 'v pathfinder \<Rightarrow> 'v search_state \<Rightarrow> 'v search_state" where
  "push key neighbor pf s =
     (let s1 = s\<lparr>count := count s + 1\<rparr>;
          s2 = s1\<lparr>queue := queue s1 @ [(key, count s1, neighbor)]\<rparr>;
          s3 = s2\<lparr>visited := insert neighbor (visited s2)\<rparr>
      in if Some neighbor \<noteq> destination pf
         then s3\<lparr>states := make_visiting neighbor (states s3)\<rparr>
         else s3)"

definition relax ::
  "algorithm \<Rightarrow> 'v vertices \<Rightarrow> 'v pathfinder \<Rightarrow> 'v \<Rightarrow> 'v \<Rightarrow> 'v search_state
     \<Rightarrow> error option \<times> 'v search_state" where
  "relax alg vx pf current neighbor s =
     (case distance s current of
        None \<Rightarrow> (Some KeyError, s)
      | Some dc \<Rightarrow>
          (let temp_distance = dc + 1
           in case distance s neighbor of
                None \<Rightarrow> (Some KeyError, s)
              | Some dn \<Rightarrow>
                  if temp_distance < dn then
                    (let s1 = s\<lparr>came_from := (came_from s)(neighbor \<mapsto> current)\<rparr>;
                         s2 = s1\<lparr>distance := (distance s1)(neighbor \<mapsto> temp_distance)\<rparr>
                     in case alg of
                          Dijkstra \<Rightarrow>
                            (None, if neighbor \<notin> visited s2
                                   then push temp_distance neighbor pf s2 else s2)
                        | AStar \<Rightarrow>
                            (case destination pf of
                               None \<Rightarrow> (Some AttributeError, s2)
                             | Some d \<Rightarrow>
                                 (let f = temp_distance
                                        + enat (nat (manhatten_distance
                                            (get_position vx neighbor) (get_position vx d)));
                                      s3 = s2\<lparr>f_score := (f_score s2)(neighbor \<mapsto> f)\<rparr>
                                  in (None, if neighbor \<notin> visited s3
                                            then push f neighbor pf s3 else s3))))
                  else (None, s)))"

fun relax_all ::
  "algorithm \<Rightarrow> 'v vertices \<Rightarrow> 'v pathfinder \<Rightarrow> 'v \<Rightarrow> 'v list \<Rightarrow> 'v search_state
     \<Rightarrow> error option \<times> 'v search_state" where
  "relax_all alg vx pf current [] s = (None, s)"
| "relax_all alg vx pf current (neighbor # ns) s =
     (case relax alg vx pf current neighbor s of
        (Some e, s') \<Rightarrow> (Some e, s')
      | (None, s') \<Rightarrow> relax_all alg vx pf current ns s')"

subsection \<open>The search loop\<close>

text \<open>
  One pass through the body of \<^verbatim>\<open>while not queue.empty()\<close> (lines 54-89 and 116-153).
  The result is \<open>None\<close> when \<^verbatim>\<open>__reconstruct_path\<close> does not return; otherwise it is the
  state after the pass together with \<open>Some r\<close> when the pass leaves the function (\<open>Inr b\<close>
  for \<^verbatim>\<open>return b\<close>, \<open>Inl e\<close> for an exception) or \<open>None\<close> when the loop goes on.
  \<^verbatim>\<open>queue.get()\<close> blocks for ever on an empty queue (the loop never calls it on one),
  \<^verbatim>\<open>visited.remove(current)\<close> raises \<^verbatim>\<open>KeyError\<close> when the vertex is not in the set, and
  \<^verbatim>\<open>self.__start.make_start()\<close> raises \<^verbatim>\<open>AttributeError\<close> on \<^verbatim>\<open>None\<close>.
\<close>

definition finish ::
  "'v pathfinder \<Rightarrow> 'v \<Rightarrow> 'v search_state \<Rightarrow> ((error + bool) option \<times> 'v search_state) option" where
  "finish pf d s =
     (case reconstruct_path (pygame_init s) (came_from s) d (states s) of
        None \<Rightarrow> None
      | Some (Some e, st) \<Rightarrow> Some (Some (Inl e), s\<lparr>states := st\<rparr>)
      | Some (None, st) \<Rightarrow>
          (case start pf of
             None \<Rightarrow> Some (Some (Inl AttributeError), s\<lparr>states := st\<rparr>)
           | Some b \<Rightarrow> Some (Some (Inr True), s\<lparr>states := make_start b st\<rparr>)))"

definition expand ::
  "algorithm \<Rightarrow> 'v vertices \<Rightarrow> 'v pathfinder \<Rightarrow> 'v \<Rightarrow> 'v search_state
     \<Rightarrow> (error + bool) option \<times> 'v search_state" where
  "expand alg vx pf current s =
     (case relax_all alg vx pf current (neighbors vx current) s of
        (Some e, s1) \<Rightarrow> (Some (Inl e), s1)
      | (None, s1) \<Rightarrow>
          (case gui_draw s1 of
             Some e \<Rightarrow> (Some (Inl e), s1)
           | None \<Rightarrow>
               (None, if Some current \<noteq> start pf
                      then s1\<lparr>states := make_visited current (states s1)\<rparr> else s1)))"

definition iteration ::
  "algorithm \<Rightarrow> 'v vertices \<Rightarrow> 'v pathfinder \<Rightarrow> 'v search_state
     \<Rightarrow> ((error + bool) option \<times> 'v search_state) option" where
  "iteration alg vx pf s =
     (case poll_events s of
        (Some e, s1) \<Rightarrow> Some (Some (Inl e), s1)
      | (None, s1) \<Rightarrow>
          if queue s1 = [] then None
          else
            (let (entry, q) = queue_get (queue s1);
                 current = snd (snd entry);
                 s2 = s1\<lparr>queue := q, popped := popped s1 @ [current]\<rparr>
             in if current \<notin> visited s2 then Some (Some (Inl KeyError), s2)
                else
                  (let s3 = s2\<lparr>visited := visited s2 - {current}\<rparr>
                   in if Some current = destination pf then finish pf current s3
                      else Some (expand alg vx pf current s3))))"

partial_function (option) search_loop ::
  "algorithm \<Rightarrow> 'v vertices \<Rightarrow> 'v pathfinder \<Rightarrow> 'v search_state
     \<Rightarrow> ((error + bool) \<times> 'v search_state) option" where
  "search_loop alg vx pf s =
     (if queue s = [] then Some (Inr False, s)
      else case iteration alg vx pf s of
             None \<Rightarrow> None
           | Some (Some r, s') \<Rightarrow> Some (r, s')
           | Some (None, s') \<Rightarrow> search_loop alg vx pf s')"

declare search_loop.simps [code]

subsection \<open>The two searches\<close>

text \<open>
  Lines 44-51 and 102-113. The dictionary comprehensions give every vertex of the grid the
  cost \<^verbatim>\<open>float("inf")\<close>. The arguments after the pathfinder are the events pygame is going
  to deliver and the vertex states at the call.
\<close>

definition all_inf :: "'v pathfinder \<Rightarrow> ('v \<rightharpoonup> enat)" where
  "all_inf pf = (\<lambda>v. if v \<in> set (concat (grid pf)) then Some \<infinity> else None)"

definition dijkstra_init :: "'v pathfinder \<Rightarrow> 'v \<Rightarrow> event list list \<Rightarrow> 'v states \<Rightarrow> 'v search_state" where
  "dijkstra_init pf b evs st =
     \<lparr>count = 0, queue = [(0, 0, b)], visited = {b}, came_from = Map.empty,
      distance = (all_inf pf)(b \<mapsto> 0), f_score = Map.empty, states = st,
      pygame_init = True, events = evs, popped = []\<rparr>"

text \<open>
  With \<^verbatim>\<open>None\<close> as start, \<^verbatim>\<open>dijkstra\<close> puts \<^verbatim>\<open>None\<close> into the queue and pops it in the first
  pass; then either \<^verbatim>\<open>None == self.__destination\<close>, the reconstruction has nothing to do and
  \<^verbatim>\<open>self.__start.make_start()\<close> raises \<^verbatim>\<open>AttributeError\<close>, or \<^verbatim>\<open>current.neighbors\<close> raises
  it. The state returned in that case is the one after the event loop of the first pass,
  without the entries for \<^verbatim>\<open>None\<close>.
\<close>

definition dijkstra ::
  "'v vertices \<Rightarrow> 'v pathfinder \<Rightarrow> event list list \<Rightarrow> 'v states
     \<Rightarrow> ((error + bool) \<times> 'v search_state) option" where
  "dijkstra vx pf evs st =
     (case start pf of
        None \<Rightarrow>
          Some (Inl AttributeError,
                snd (poll_events
                  \<lparr>count = 0, queue = [], visited = {}, came_from = Map.empty,
                   distance = all_inf pf, f_score = Map.empty, states = st,
                   pygame_init = True, events = evs, popped = []\<rparr>))
      | Some b \<Rightarrow> search_loop Dijkstra vx pf (dijkstra_init pf b evs st))"

definition a_star_init ::
  "'v vertices \<Rightarrow> 'v pathfinder \<Rightarrow> 'v \<Rightarrow> 'v \<Rightarrow> event list list \<Rightarrow> 'v states \<Rightarrow> 'v search_state" where
  "a_star_init vx pf b d evs st =
     \<lparr>count = 0, queue = [(0, 0, b)], visited = {b}, came_from = Map.empty,
      distance = (all_inf pf)(b \<mapsto> 0),
      f_score = (all_inf pf)(b \<mapsto>
         enat (nat (manhatten_distance (get_position vx b) (get_position vx d)))),
      states = st, pygame_init = True, events = evs, popped = []\<rparr>"

text \<open>
  \<^verbatim>\<open>a_star_search\<close> evaluates \<^verbatim>\<open>self.__start.get_position()\<close> and
  \<^verbatim>\<open>self.__destination.get_position()\<close> in line 109, before the loop: \<^verbatim>\<open>AttributeError\<close>
  when either is \<^verbatim>\<open>None\<close>, with the queue, \<^verbatim>\<open>g_score\<close> and the comprehension for
  \<^verbatim>\<open>f_score\<close> done and \<^verbatim>\<open>open_set\<close> not yet assigned (the entries for a start that is
  \<^verbatim>\<open>None\<close> are left out of the state returned).
\<close>

definition a_star_search ::
  "'v vertices \<Rightarrow> 'v pathfinder \<Rightarrow> event list list \<Rightarrow> 'v states
     \<Rightarrow> ((error + bool) \<times> 'v search_state) option" where
  "a_star_search vx pf evs st =
     (case start pf of
        None \<Rightarrow>
          Some (Inl AttributeError,
                \<lparr>count = 0, queue = [], visited = {}, came_from = Map.empty,
                 distance = all_inf pf, f_score = all_inf pf, states = st,
                 pygame_init = True, events = evs, popped = []\<rparr>)
      | Some b \<Rightarrow>
          (case destination pf of
             None \<Rightarrow>
               Some (Inl AttributeError,
                     \<lparr>count = 0, queue = [(0, 0, b)], visited = {}, came_from = Map.empty,
                      distance = (all_inf pf)(b \<mapsto> 0), f_score = all_inf pf, states = st,
                      pygame_init = True, events = evs, popped = []\<rparr>)
           | Some d \<Rightarrow> search_loop AStar vx pf (a_star_init vx pf b d evs st)))"

subsection \<open>Maze generation\<close>

text \<open>
  \<^verbatim>\<open>generate_maze\<close> (lines 159-166). The number of passes is \<^verbatim>\<open>n + 1\<close> with
  \<^verbatim>\<open>n = round(len(grid) * len(grid) * 0.3)\<close>, a floating-point product; the model takes the
  list of the pairs that the two \<^verbatim>\<open>randrange\<close> calls of the successive passes return, one
  pair for each pass. \<^verbatim>\<open>randrange(0)\<close> raises \<^verbatim>\<open>ValueError\<close>; an index outside a list
  raises \<^verbatim>\<open>IndexError\<close> (a row shorter than the grid is long).
\<close>

fun generate_maze ::
  "'v pathfinder \<Rightarrow> (nat \<times> nat) list \<Rightarrow> 'v states \<Rightarrow> error option \<times> 'v states" where
  "generate_maze pf [] st = (None, st)"
| "generate_maze pf ((row, col) # picks) st =
     (if length (grid pf) = 0 then (Some ValueError, st)
      else if \<not> row < length (grid pf) then (Some IndexError, st)
      else if \<not> col < length (grid pf ! row) then (Some IndexError, st)
      else
        (let v = grid pf ! row ! col
         in generate_maze pf picks
              (if Some v \<noteq> start pf \<and> Some v \<noteq> destination pf
               then make_wall v st else st)))"

subsection \<open>The grid of the user interface\<close>

text \<open>
  \<^verbatim>\<open>GUI.__initialize_grid\<close> (\<^verbatim>\<open>gui.py\<close>, lines 44-52) builds a square grid with one new
  vertex for each row and column; the pair of the two is the identity of that vertex here,
  and its position.
\<close>

definition initialize_grid :: "nat \<Rightarrow> (int \<times> int) list list" where
  "initialize_grid rows =
     map (\<lambda>row. map (\<lambda>col. (int row, int col)) [0..<rows]) [0..<rows]"

text \<open>
  Modelled from the spec: a vertex is in the state Default when it is created, and
  \<^verbatim>\<open>Vertex.update_neighbors\<close> (called by \<^verbatim>\<open>gui.py\<close>, lines 148-150, not among the sources)
  collects the four cells above, below, left and right of a vertex that lie within the
  grid and are not walls. The spec leaves the order open and names this one as an example.
\<close>

definition fresh :: "'v states" where
  "fresh = (\<lambda>v. Default)"

definition update_neighbors :: "nat \<Rightarrow> (int \<times> int) states \<Rightarrow> int \<times> int \<Rightarrow> (int \<times> int) list" where
  "update_neighbors rows st v =
     filter (\<lambda>(r, c). 0 \<le> r \<and> r < int rows \<and> 0 \<le> c \<and> c < int rows \<and> st (r, c) \<noteq> Wall)
       [(fst v - 1, snd v), (fst v + 1, snd v), (fst v, snd v - 1), (fst v, snd v + 1)]"

definition grid_vertices :: "nat \<Rightarrow> (int \<times> int) states \<Rightarrow> (int \<times> int) vertices" where
  "grid_vertices rows st = \<lparr>get_position = (\<lambda>v. v), neighbors = update_neighbors rows st\<rparr>"

definition maze_example :: "(int \<times> int) pathfinder" where
  "maze_example = \<lparr>grid = initialize_grid 2, start = Some (0, 0), destination = Some (1, 1)\<rparr>"

subsection \<open>Notions used in the statements\<close>

text \<open>
  \<open>chain cf v ps\<close>: following \<open>cf\<close> backwards from \<open>v\<close> visits exactly the vertices \<open>ps\<close>,
  in this order, and stops at the last of them, which has no entry in \<open>cf\<close>.
  \<open>marked r v\<close> is the state of \<open>v\<close> after a reconstruction that returned \<open>r\<close>.
\<close>

fun chain :: "('v \<rightharpoonup> 'v) \<Rightarrow> 'v \<Rightarrow> 'v list \<Rightarrow> bool" where
  "chain cf v [] = (cf v = None)"
| "chain cf v (p # ps) = (cf v = Some p \<and> chain cf p ps)"

definition marked :: "(error option \<times> 'v states) option \<Rightarrow> 'v \<Rightarrow> vstate option" where
  "marked r v = map_option (\<lambda>(e, st). st v) r"

text \<open>Two small predecessor maps: \<open>(0, 1)\<close> reached from \<open>(0, 0)\<close>, and \<open>(1, 1)\<close> from there.\<close>

definition one_step :: "int \<times> int \<rightharpoonup> int \<times> int" where
  "one_step = [(0, 1) \<mapsto> (0, 0)]"

definition two_steps :: "int \<times> int \<rightharpoonup> int \<times> int" where
  "two_steps = [(0, 1) \<mapsto> (0, 0), (1, 1) \<mapsto> (0, 1)]"

text \<open>
  What a finished search shows: its result, the final state of a vertex, and the vertices
  it popped.
\<close>

definition outcome :: "((error + bool) \<times> 'v search_state) option \<Rightarrow> (error + bool) option" where
  "outcome x = map_option fst x"

definition final_state :: "((error + bool) \<times> 'v search_state) option \<Rightarrow> 'v \<Rightarrow> vstate option" where
  "final_state x v = map_option (\<lambda>(r, s). states s v) x"

definition final_popped :: "((error + bool) \<times> 'v search_state) option \<Rightarrow> 'v list option" where
  "final_popped x = map_option (\<lambda>(r, s). popped s) x"



text \<open>Two states that differ at most in the arrangement of the entries in the queue.\<close>

definition same_entries :: "'v search_state \<Rightarrow> 'v search_state \<Rightarrow> bool" where
  "same_entries s t = (t = s\<lparr>queue := queue t\<rparr> \<and> mset (queue t) = mset (queue s))"

text \<open>Pathfinders on the 2 x 2 grid: start and destination the same vertex, and no destination.\<close>

definition same_example :: "(int \<times> int) pathfinder" where
  "same_example = \<lparr>grid = initialize_grid 2, start = Some (0, 0), destination = Some (0, 0)\<rparr>"

definition no_destination_example :: "(int \<times> int) pathfinder" where
  "no_destination_example = \<lparr>grid = initialize_grid 2, start = Some (0, 0), destination = None\<rparr>"

text \<open>Vertex states of that grid with the destination marked as the user interface marks it.\<close>

definition destination_marked :: "(int \<times> int) states" where
  "destination_marked = fresh((1, 1) := Destination)"

definition same_marked :: "(int \<times> int) states" where
  "same_marked = fresh((0, 0) := Destination)"

text \<open>
  The state of \<^verbatim>\<open>dijkstra\<close> on the 2 x 2 grid after its first pass from \<open>(0, 0)\<close>, and the same
  state with the two entries of the queue in the other arrangement.
\<close>

definition two_entries :: "(int \<times> int) search_state" where
  "two_entries =
     \<lparr>count = 2, queue = [(1, 1, (1, 0)), (1, 2, (0, 1))], visited = {(1, 0), (0, 1)},
      came_from = [(1, 0) \<mapsto> (0, 0), (0, 1) \<mapsto> (0, 0)],
      distance = [(0, 0) \<mapsto> 0, (1, 0) \<mapsto> 1, (0, 1) \<mapsto> 1, (1, 1) \<mapsto> \<infinity>],
      f_score = Map.empty, states = fresh, pygame_init = True, events = [], popped = [(0, 0)]\<rparr>"

definition two_entries_swapped :: "(int \<times> int) search_state" where
  "two_entries_swapped = two_entries\<lparr>queue := [(1, 2, (0, 1)), (1, 1, (1, 0))]\<rparr>"

subsection \<open>The invariant of the search loop and its measure\<close>

definition vertices_of :: "(enat \<times> nat \<times> 'v) list \<Rightarrow> 'v list" where
  "vertices_of q = map (\<lambda>e. snd (snd e)) q"

definition counts_of :: "(enat \<times> nat \<times> 'v) list \<Rightarrow> nat list" where
  "counts_of q = map (\<lambda>e. fst (snd e)) q"

text \<open>
  The counts of the entries in the queue are pairwise different and none is beyond the
  counter: the comparison of two entries is decided by key and count.
\<close>

definition counts_ok :: "'v search_state \<Rightarrow> bool" where
  "counts_ok s = (distinct (counts_of (queue s)) \<and> (\<forall>c \<in> set (counts_of (queue s)). c \<le> count s))"

text \<open>
  What holds at the head of the loop in every search: \<open>distance\<close> has finitely many keys;
  a predecessor is strictly closer to the start than its successor, both at a finite cost;
  the frontier set holds exactly the vertices of the queue, each once; every vertex there
  has a finite cost.
\<close>

definition search_inv :: "'v search_state \<Rightarrow> bool" where
  "search_inv s =
     (finite (dom (distance s))
      \<and> (\<forall>v p. came_from s v = Some p \<longrightarrow>
            (\<exists>a b. distance s p = Some (enat a) \<and> distance s v = Some (enat b) \<and> a < b))
      \<and> visited s = set (vertices_of (queue s))
      \<and> distinct (vertices_of (queue s))
      \<and> counts_ok s
      \<and> (\<forall>v \<in> visited s. \<exists>a. distance s v = Some (enat a)))"

text \<open>
  The measure that decreases with every pass: the number of vertices at infinite cost,
  then twice the sum of the finite costs plus the length of the queue.
\<close>

definition infs :: "'v search_state \<Rightarrow> nat" where
  "infs s = card {v. distance s v = Some \<infinity>}"

definition fin_cost :: "enat option \<Rightarrow> nat" where
  "fin_cost x = (case x of Some (enat n) \<Rightarrow> n | _ \<Rightarrow> 0)"

definition fins :: "'v search_state \<Rightarrow> nat" where
  "fins s = (\<Sum>v \<in> dom (distance s). fin_cost (distance s v))"

definition search_le :: "'v search_state \<Rightarrow> 'v search_state \<Rightarrow> bool" where
  "search_le s' s =
     (infs s' < infs s
      \<or> (infs s' = infs s \<and> 2 * fins s' + length (queue s') \<le> 2 * fins s + length (queue s)))"

definition search_less :: "'v search_state \<Rightarrow> 'v search_state \<Rightarrow> bool" where
  "search_less s' s =
     (infs s' < infs s
      \<or> (infs s' = infs s \<and> 2 * fins s' + length (queue s') < 2 * fins s + length (queue s)))"

text \<open>The heuristic term of the key: nothing in \<^verbatim>\<open>dijkstra\<close>, the Manhattan distance in \<^verbatim>\<open>a_star_search\<close>.\<close>

definition heur :: "algorithm \<Rightarrow> 'v vertices \<Rightarrow> 'v pathfinder \<Rightarrow> 'v \<Rightarrow> nat" where
  "heur alg vx pf v =
     (case alg of
        Dijkstra \<Rightarrow> 0
      | AStar \<Rightarrow>
          (case destination pf of
             None \<Rightarrow> 0
           | Some d \<Rightarrow> nat (manhatten_distance (get_position vx v) (get_position vx d))))"

text \<open>
  The vertex that the next \<^verbatim>\<open>queue.get()\<close> returns, and the state after the event loop, the
  \<^verbatim>\<open>queue.get()\<close> and the \<^verbatim>\<open>visited.remove(current)\<close> of a pass.
\<close>

definition current_of :: "'v search_state \<Rightarrow> 'v" where
  "current_of s = snd (snd (fst (queue_get (queue s))))"

definition after_pop :: "'v search_state \<Rightarrow> 'v search_state" where
  "after_pop s =
     (snd (poll_events s))\<lparr>queue := snd (queue_get (queue s)),
                            popped := popped s @ [current_of s],
                            visited := visited s - {current_of s}\<rparr>"

text \<open>The display is open and no quit event is to come.\<close>

definition env_ok :: "'v search_state \<Rightarrow> bool" where
  "env_ok s = (pygame_init s \<and> (\<forall>es \<in> set (events s). QUIT \<notin> set es))"

subsection \<open>Searching a region in layers\<close>

text \<open>
  The notions for the proof that a search on a grid without walls finds a shortest path.
  \<open>disc s v\<close>: the vertex has been given a finite cost; \<open>closed s v\<close>: it has, and has left
  the queue. \<open>key_of\<close> is the key of a vertex whose cost is its layer.
\<close>

definition grid_set :: "'v pathfinder \<Rightarrow> 'v set" where
  "grid_set pf = set (concat (grid pf))"

definition disc :: "'v search_state \<Rightarrow> 'v \<Rightarrow> bool" where
  "disc s v = (\<exists>a. distance s v = Some (enat a))"

definition closed :: "'v search_state \<Rightarrow> 'v \<Rightarrow> bool" where
  "closed s v = (disc s v \<and> v \<notin> visited s)"

definition key_of :: "algorithm \<Rightarrow> 'v vertices \<Rightarrow> 'v pathfinder \<Rightarrow> ('v \<Rightarrow> nat) \<Rightarrow> 'v \<Rightarrow> nat" where
  "key_of alg vx pf lam v = lam v + heur alg vx pf v"

text \<open>
  A region \<open>R\<close> of the grid with a layer function \<open>lam\<close> (the distance from the start \<open>b\<close>)
  fits a search when: start and destination \<open>t\<close> lie in it; neighbours stay in the grid and
  climb by at most one layer; neighbours inside the region are one layer apart; every
  vertex of the region but the start has a neighbour in the region one layer below; inside
  the region the key grows with the layer, and outside every key is greater than inside.
\<close>

definition layered ::
  "algorithm \<Rightarrow> 'v vertices \<Rightarrow> 'v pathfinder \<Rightarrow> 'v set \<Rightarrow> ('v \<Rightarrow> nat) \<Rightarrow> 'v \<Rightarrow> 'v \<Rightarrow> bool" where
  "layered alg vx pf R lam b t =
     (start pf = Some b \<and> destination pf = Some t \<and> b \<in> R \<and> t \<in> R \<and> R \<subseteq> grid_set pf
      \<and> lam b = 0
      \<and> (\<forall>u \<in> grid_set pf. set (neighbors vx u) \<subseteq> grid_set pf)
      \<and> (\<forall>u \<in> grid_set pf. \<forall>w \<in> set (neighbors vx u). lam w \<le> lam u + 1)
      \<and> (\<forall>u \<in> R. \<forall>w \<in> set (neighbors vx u). w \<in> R \<longrightarrow> lam w = lam u + 1 \<or> lam u = lam w + 1)
      \<and> (\<forall>v \<in> R. v \<noteq> b \<longrightarrow> (\<exists>u \<in> R. v \<in> set (neighbors vx u) \<and> lam v = lam u + 1))
      \<and> (\<forall>u \<in> R. \<forall>u' \<in> R. lam u \<le> lam u' \<longrightarrow> key_of alg vx pf lam u \<le> key_of alg vx pf lam u')
      \<and> (\<forall>v \<in> grid_set pf - R. \<forall>u \<in> R. key_of alg vx pf lam u < key_of alg vx pf lam v))"

text \<open>
  The parts of the invariant, beside \<open>env_ok\<close>: every vertex of the grid has a cost, at least
  its layer, and exactly its layer in the region;
\<close>

definition dist_ok :: "'v pathfinder \<Rightarrow> 'v set \<Rightarrow> ('v \<Rightarrow> nat) \<Rightarrow> 'v search_state \<Rightarrow> bool" where
  "dist_ok pf R lam s =
     ((\<forall>v \<in> grid_set pf. distance s v \<noteq> None)
      \<and> (\<forall>v \<in> grid_set pf. \<forall>a. distance s v = Some (enat a) \<longrightarrow> lam v \<le> a)
      \<and> (\<forall>v \<in> R. \<forall>a. distance s v = Some (enat a) \<longrightarrow> a = lam v))"

text \<open>
  the entries of the queue carry the key of their vertex in the region (the entry of the
  start, put in with the key 0, at most that) and at least that key outside;
\<close>

definition keys_ok ::
  "algorithm \<Rightarrow> 'v vertices \<Rightarrow> 'v pathfinder \<Rightarrow> 'v set \<Rightarrow> ('v \<Rightarrow> nat) \<Rightarrow> 'v
     \<Rightarrow> 'v search_state \<Rightarrow> bool" where
  "keys_ok alg vx pf R lam b s =
     (\<forall>e \<in> set (queue s).
        snd (snd e) \<in> grid_set pf
        \<and> (snd (snd e) \<in> R \<longrightarrow> fst e \<le> enat (key_of alg vx pf lam (snd (snd e))))
        \<and> (snd (snd e) \<in> R \<and> snd (snd e) \<noteq> b \<longrightarrow>
              fst e = enat (key_of alg vx pf lam (snd (snd e))))
        \<and> (snd (snd e) \<notin> R \<longrightarrow> enat (key_of alg vx pf lam (snd (snd e))) \<le> fst e))"

text \<open>among the entries of the region a smaller count goes with a layer that is not greater;\<close>

definition sorted_ok :: "'v set \<Rightarrow> ('v \<Rightarrow> nat) \<Rightarrow> 'v search_state \<Rightarrow> bool" where
  "sorted_ok R lam s =
     (\<forall>e \<in> set (queue s). \<forall>e' \<in> set (queue s).
        snd (snd e) \<in> R \<and> snd (snd e') \<in> R \<and> fst (snd e) < fst (snd e')
          \<longrightarrow> lam (snd (snd e)) \<le> lam (snd (snd e')))"

text \<open>the predecessors inside the region lead one layer down, to the start, which has none;\<close>

definition tree_ok :: "'v vertices \<Rightarrow> 'v set \<Rightarrow> ('v \<Rightarrow> nat) \<Rightarrow> 'v \<Rightarrow> 'v search_state \<Rightarrow> bool" where
  "tree_ok vx R lam b s =
     ((\<forall>v \<in> R. \<forall>p. came_from s v = Some p \<longrightarrow> p \<in> R \<and> lam v = lam p + 1)
      \<and> (\<forall>v \<in> R. disc s v \<and> v \<noteq> b \<longrightarrow> came_from s v \<noteq> None)
      \<and> (\<forall>v p. came_from s v = Some p \<longrightarrow> v \<in> set (neighbors vx p))
      \<and> came_from s b = None \<and> distance s b = Some 0)"

definition bfs_core ::
  "algorithm \<Rightarrow> 'v vertices \<Rightarrow> 'v pathfinder \<Rightarrow> 'v set \<Rightarrow> ('v \<Rightarrow> nat) \<Rightarrow> 'v \<Rightarrow> 'v
     \<Rightarrow> 'v search_state \<Rightarrow> bool" where
  "bfs_core alg vx pf R lam b t s =
     (env_ok s \<and> dist_ok pf R lam s \<and> keys_ok alg vx pf R lam b s \<and> sorted_ok R lam s
      \<and> tree_ok vx R lam b s \<and> (disc s t \<longrightarrow> t \<in> visited s))"

text \<open>
  \<open>nbrs_ok x s\<close>: the neighbours in the region of every closed vertex of the region are
  discovered, but for the vertex \<open>x\<close> that is being expanded.
\<close>

definition nbrs_ok :: "'v vertices \<Rightarrow> 'v set \<Rightarrow> 'v option \<Rightarrow> 'v search_state \<Rightarrow> bool" where
  "nbrs_ok vx R x s =
     (\<forall>v \<in> R. closed s v \<and> Some v \<noteq> x \<longrightarrow> (\<forall>w \<in> set (neighbors vx v). w \<in> R \<longrightarrow> disc s w))"

text \<open>The invariant at the head of the loop: the layers in the queue span at most two.\<close>

definition bfs_inv ::
  "algorithm \<Rightarrow> 'v vertices \<Rightarrow> 'v pathfinder \<Rightarrow> 'v set \<Rightarrow> ('v \<Rightarrow> nat) \<Rightarrow> 'v \<Rightarrow> 'v
     \<Rightarrow> 'v search_state \<Rightarrow> bool" where
  "bfs_inv alg vx pf R lam b t s =
     (bfs_core alg vx pf R lam b t s
      \<and> (\<forall>e \<in> set (queue s). \<forall>e' \<in> set (queue s).
           snd (snd e) \<in> R \<and> snd (snd e') \<in> R \<longrightarrow> lam (snd (snd e')) \<le> lam (snd (snd e)) + 1)
      \<and> nbrs_ok vx R None s)"

text \<open>The invariant while the neighbours of the popped vertex \<open>u\<close> are relaxed.\<close>

definition bfs_mid ::
  "algorithm \<Rightarrow> 'v vertices \<Rightarrow> 'v pathfinder \<Rightarrow> 'v set \<Rightarrow> ('v \<Rightarrow> nat) \<Rightarrow> 'v \<Rightarrow> 'v \<Rightarrow> 'v
     \<Rightarrow> 'v search_state \<Rightarrow> bool" where
  "bfs_mid alg vx pf R lam b t u s =
     (bfs_core alg vx pf R lam b t s
      \<and> u \<in> R \<and> distance s u = Some (enat (lam u)) \<and> u \<notin> visited s
      \<and> (\<forall>e \<in> set (queue s). snd (snd e) \<in> R \<longrightarrow>
            lam u \<le> lam (snd (snd e)) \<and> lam (snd (snd e)) \<le> lam u + 1)
      \<and> (\<forall>w \<in> R. lam w < lam u \<longrightarrow> disc s w)
      \<and> nbrs_ok vx R (Some u) s)"

text \<open>
  \<open>path_in vx v ps\<close>: walking back from \<open>v\<close> through \<open>ps\<close>, every vertex is in the neighbour
  list of the vertex after it, so \<open>rev (v # ps)\<close> is a path of the grid graph.
\<close>

fun path_in :: "'v vertices \<Rightarrow> 'v \<Rightarrow> 'v list \<Rightarrow> bool" where
  "path_in vx v [] = True"
| "path_in vx v (p # ps) = (v \<in> set (neighbors vx p) \<and> path_in vx p ps)"

text \<open>
  What a successful search leaves: following \<open>came_from\<close> back from the destination \<open>t\<close>
  gives a path of \<open>n\<close> steps from the start \<open>b\<close>, marked Path but for the start, which is
  marked Start.
\<close>

definition found_path :: "'v vertices \<Rightarrow> 'v \<Rightarrow> 'v \<Rightarrow> nat \<Rightarrow> 'v search_state \<Rightarrow> bool" where
  "found_path vx b t n s =
     (\<exists>ps. chain (came_from s) t ps \<and> path_in vx t ps \<and> last (t # ps) = b \<and> length ps = n
        \<and> states s b = Start \<and> list_all (\<lambda>v. v = b \<or> states s v = Path) ps)"

subsection \<open>Square grids without walls\<close>

text \<open>
  \<open>wall_free_grid vx pf\<close>: the grid of the pathfinder is square, the vertex in row \<open>r\<close> and
  column \<open>c\<close> has the position \<open>(r, c)\<close>, and the neighbour list of every vertex holds, in some
  order, the vertices of the grid one step above, below, left and right of it: no vertex
  is a wall. \<open>layer vx b v\<close> is the Manhattan distance between \<open>b\<close> and \<open>v\<close>, and
  \<open>between vx pf b t\<close> the vertices on the shortest paths from \<open>b\<close> to \<open>t\<close>.
\<close>

definition wall_free_grid :: "'v vertices \<Rightarrow> 'v pathfinder \<Rightarrow> bool" where
  "wall_free_grid vx pf =
     ((\<forall>row \<in> set (grid pf). length row = length (grid pf))
      \<and> (\<forall>r < length (grid pf). \<forall>c < length (grid pf).
            get_position vx (grid pf ! r ! c) = (int r, int c))
      \<and> (\<forall>v \<in> grid_set pf.
            set (neighbors vx v)
              = {w \<in> grid_set pf.
                   manhatten_distance (get_position vx v) (get_position vx w) = 1}))"

definition layer :: "'v vertices \<Rightarrow> 'v \<Rightarrow> 'v \<Rightarrow> nat" where
  "layer vx b v = nat (manhatten_distance (get_position vx b) (get_position vx v))"

definition between :: "'v vertices \<Rightarrow> 'v pathfinder \<Rightarrow> 'v \<Rightarrow> 'v \<Rightarrow> 'v set" where
  "between vx pf b t = {v \<in> grid_set pf. layer vx b v + layer vx v t = layer vx b t}"

text \<open>The grid of five rows without walls, from the corner \<open>(0, 0)\<close> to the corner \<open>(4, 4)\<close>.\<close>

definition empty_grid_example :: "(int \<times> int) pathfinder" where
  "empty_grid_example =
     \<lparr>grid = initialize_grid 5, start = Some (0, 0), destination = Some (4, 4)\<rparr>"

section \<open>Properties\<close>

subsection \<open>Vertex states\<close>

lemma make_apply:
  "make_visiting v st u = (if u = v then Visiting else st u)"
  "make_visited v st u = (if u = v then Visited else st u)"
  "make_path v st u = (if u = v then Path else st u)"
  "make_start v st u = (if u = v then Start else st u)"
  "make_wall v st u = (if u = v then Wall else st u)"
  by (simp_all add: make_visiting_def make_visited_def make_path_def make_start_def make_wall_def)

subsection \<open>The grid of the user interface\<close>

lemma initialize_grid_mem:
  "(x, y) \<in> set (concat (initialize_grid n)) \<longleftrightarrow> 0 \<le> x \<and> x < int n \<and> 0 \<le> y \<and> y < int n"
proof -
  have "(x, y) \<in> set (concat (initialize_grid n)) \<longleftrightarrow> (\<exists>r < n. \<exists>c < n. x = int r \<and> y = int c)"
    by (auto simp: initialize_grid_def image_iff Bex_def)
  also have "\<dots> \<longleftrightarrow> 0 \<le> x \<and> x < int n \<and> 0 \<le> y \<and> y < int n"
  proof
    assume "\<exists>r < n. \<exists>c < n. x = int r \<and> y = int c"
    then show "0 \<le> x \<and> x < int n \<and> 0 \<le> y \<and> y < int n" by auto
  next
    assume a: "0 \<le> x \<and> x < int n \<and> 0 \<le> y \<and> y < int n"
    then have "nat x < n" "nat y < n" "x = int (nat x)" "y = int (nat y)" by auto
    then have "nat x < n \<and> (\<exists>c < n. x = int (nat x) \<and> y = int c)" by blast
    then show "\<exists>r < n. \<exists>c < n. x = int r \<and> y = int c" by (rule exI)
  qed
  finally show ?thesis .
qed

lemma four_steps:
  fixes x :: int
  shows "\<bar>x - x'\<bar> + \<bar>y - y'\<bar> = 1 \<longleftrightarrow>
    (x' = x - 1 \<and> y' = y) \<or> (x' = x + 1 \<and> y' = y) \<or> (x' = x \<and> y' = y - 1)
    \<or> (x' = x \<and> y' = y + 1)"
  by arith

lemma update_neighbors_mem:
  "(x', y') \<in> set (update_neighbors n fresh (x, y)) \<longleftrightarrow>
     (0 \<le> x' \<and> x' < int n \<and> 0 \<le> y' \<and> y' < int n)
     \<and> ((x' = x - 1 \<and> y' = y) \<or> (x' = x + 1 \<and> y' = y) \<or> (x' = x \<and> y' = y - 1)
        \<or> (x' = x \<and> y' = y + 1))"
  unfolding update_neighbors_def fresh_def by auto

lemma update_neighbors_set:
  "set (update_neighbors n fresh v)
     = {w \<in> set (concat (initialize_grid n)). manhatten_distance v w = 1}"
proof -
  obtain x y where v: "v = (x, y)" by (cases v)
  have "w \<in> set (update_neighbors n fresh v) \<longleftrightarrow>
      w \<in> set (concat (initialize_grid n)) \<and> manhatten_distance v w = 1" for w
  proof -
    obtain x' y' where w: "w = (x', y')" by (cases w)
    show ?thesis
      unfolding v w update_neighbors_mem initialize_grid_mem manhatten_distance.simps four_steps ..
  qed
  then show ?thesis by blast
qed


subsection \<open>Maze generation\<close>

lemma generate_maze_frame:
  "(start pf = Some v \<or> destination pf = Some v) \<Longrightarrow> snd (generate_maze pf picks st) v = st v"
  by (induction pf picks st rule: generate_maze.induct) (auto simp: make_apply Let_def)

lemma generate_maze_only_walls:
  "snd (generate_maze pf picks st) u = st u \<or> snd (generate_maze pf picks st) u = Wall"
proof (induction picks arbitrary: st)
  case Nil
  show ?case by simp
next
  case (Cons p picks)
  obtain row col where p: "p = (row, col)" by (cases p)
  define st' where "st' = (if Some (grid pf ! row ! col) \<noteq> start pf
      \<and> Some (grid pf ! row ! col) \<noteq> destination pf
    then make_wall (grid pf ! row ! col) st else st)"
  have a: "st' u = st u \<or> st' u = Wall"
    by (simp add: st'_def make_apply)
  have b: "snd (generate_maze pf picks st') u = st' u
      \<or> snd (generate_maze pf picks st') u = Wall"
    by (rule Cons)
  have c: "generate_maze pf (p # picks) st = generate_maze pf picks st'
      \<or> snd (generate_maze pf (p # picks) st) = st"
    by (simp add: p st'_def Let_def)
  from a b c show ?case by metis
qed

text \<open>
  Claim C8. Whatever the random picks are, \<^verbatim>\<open>generate_maze\<close> leaves the state of the start
  vertex and of the destination vertex as it was, so it never makes either a wall; a pick
  that lands on one of them is passed over, and the run goes on with the next pick as if
  that pick had not been there (it is not drawn again). The only state the run ever
  writes is Wall.
\<close>

theorem generate_maze_spares_endpoints:
  "(start pf = Some v \<or> destination pf = Some v \<longrightarrow> snd (generate_maze pf picks st) v = st v)
   \<and> (row < length (grid pf) \<and> col < length (grid pf ! row)
        \<and> (Some (grid pf ! row ! col) = start pf \<or> Some (grid pf ! row ! col) = destination pf)
      \<longrightarrow> generate_maze pf ((row, col) # picks) st = generate_maze pf picks st)
   \<and> (snd (generate_maze pf picks st) u = st u \<or> snd (generate_maze pf picks st) u = Wall)"
proof (intro conjI impI)
  assume "start pf = Some v \<or> destination pf = Some v"
  then show "snd (generate_maze pf picks st) v = st v" by (rule generate_maze_frame)
next
  assume a: "row < length (grid pf) \<and> col < length (grid pf ! row)
        \<and> (Some (grid pf ! row ! col) = start pf \<or> Some (grid pf ! row ! col) = destination pf)"
  then have "grid pf \<noteq> []" by auto
  with a show "generate_maze pf ((row, col) # picks) st = generate_maze pf picks st"
    by (auto simp: Let_def)
next
  show "snd (generate_maze pf picks st) u = st u \<or> snd (generate_maze pf picks st) u = Wall"
    by (rule generate_maze_only_walls)
qed

theorem generate_maze_spares_endpoints_witness:
  "start maze_example = Some (0, 0)
   \<and> snd (generate_maze maze_example [(0, 0), (0, 1), (1, 1)] fresh) (0, 0) = Default
   \<and> generate_maze maze_example [(0, 0), (0, 1), (1, 1)] fresh
       = generate_maze maze_example [(0, 1), (1, 1)] fresh
   \<and> snd (generate_maze maze_example [(0, 0), (0, 1), (1, 1)] fresh) (0, 1) = Wall"
proof -
  have g: "grid maze_example = [[(0, 0), (0, 1)], [(1, 0), (1, 1)]]"
    by (simp add: maze_example_def initialize_grid_def upt_rec)
  have s: "start maze_example = Some (0, 0)" "destination maze_example = Some (1, 1)"
    by (simp_all add: maze_example_def)
  have w: "snd (generate_maze maze_example [(0, 0), (0, 1), (1, 1)] fresh) (0, 1) = Wall"
    by (simp add: g s make_apply fresh_def)
  show ?thesis
    using generate_maze_spares_endpoints [of maze_example "(0, 0)" "[(0, 1), (1, 1)]" fresh 0 0 "(0, 1)"] w
    using generate_maze_spares_endpoints [of maze_example "(0, 0)" "[(0, 0), (0, 1), (1, 1)]" fresh 0 0 "(0, 1)"]
    by (simp add: g s fresh_def)
qed

subsection \<open>Relaxation\<close>




text \<open>
  Claim C3, as the code has it. A vertex that the relaxation of \<^verbatim>\<open>a_star_search\<close> puts
  into the queue gets the key \<open>f_score[vertex] = g_score[vertex] + h(vertex, destination)\<close>,
  \<open>h\<close> being the Manhattan distance of the two positions. The first entry of the queue is
  not of this kind: the start vertex is put in with the key 0 (line 104), while
  \<open>f_score[start]\<close> is \<open>h(start, destination)\<close> (line 109).
\<close>

theorem a_star_priority_key:
  "(relax AStar vx pf current neighbor s = (r, s') \<and> queue s' \<noteq> queue s \<longrightarrow>
      (\<exists>g d. destination pf = Some d \<and> distance s' neighbor = Some g
         \<and> f_score s' neighbor
             = Some (g + enat (nat (manhatten_distance (get_position vx neighbor) (get_position vx d))))
         \<and> queue s' = queue s @
             [(g + enat (nat (manhatten_distance (get_position vx neighbor) (get_position vx d))),
               count s', neighbor)]))
   \<and> manhatten_distance (row_a, col_a) (row_b, col_b) = \<bar>row_a - row_b\<bar> + \<bar>col_a - col_b\<bar>
   \<and> queue (a_star_init vx pf b d evs st) = [(0, 0, b)]
   \<and> f_score (a_star_init vx pf b d evs st) b
       = Some (enat (nat (manhatten_distance (get_position vx b) (get_position vx d))))"
  by (auto simp: relax_def push_def Let_def a_star_init_def
      split: option.splits if_splits)

theorem a_star_priority_key_witness:
  "queue (snd (relax AStar (grid_vertices 2 fresh) maze_example (0, 0) (0, 1)
        (a_star_init (grid_vertices 2 fresh) maze_example (0, 0) (1, 1) [] fresh)))
     = [(0, 0, (0, 0)), (2, 1, (0, 1))]
   \<and> f_score (snd (relax AStar (grid_vertices 2 fresh) maze_example (0, 0) (0, 1)
        (a_star_init (grid_vertices 2 fresh) maze_example (0, 0) (1, 1) [] fresh))) (0, 1)
     = Some 2"
proof -
  have g: "set (concat (grid maze_example)) = {(0, 0), (0, 1), (1, 0), (1, 1)}"
    by (auto simp: maze_example_def initialize_grid_def upt_rec)
  have e: "destination maze_example = Some (1, 1)"
    by (simp add: maze_example_def)
  have ai: "all_inf maze_example (0, 1) = Some \<infinity>"
    unfolding all_inf_def g by simp
  have q: "queue (snd (relax AStar (grid_vertices 2 fresh) maze_example (0, 0) (0, 1)
        (a_star_init (grid_vertices 2 fresh) maze_example (0, 0) (1, 1) [] fresh)))
     = [(0, 0, (0, 0)), (2, 1, (0, 1))]"
    by (simp add: relax_def push_def Let_def a_star_init_def ai e grid_vertices_def
        one_enat_def zero_enat_def numeral_eq_enat)
  define s0 where "s0 = a_star_init (grid_vertices 2 fresh) maze_example (0, 0) (1, 1) [] fresh"
  obtain r s' where r: "relax AStar (grid_vertices 2 fresh) maze_example (0, 0) (0, 1) s0 = (r, s')"
    by (cases "relax AStar (grid_vertices 2 fresh) maze_example (0, 0) (0, 1) s0")
  have q': "queue s' = [(0, 0, (0, 0)), (2, 1, (0, 1))]"
    using q r by (simp add: s0_def)
  have n: "queue s' \<noteq> queue s0"
    using q' by (simp add: s0_def a_star_init_def)
  from a_star_priority_key [of "grid_vertices 2 fresh" maze_example "(0, 0)" "(0, 1)" s0 r s'
      0 0 0 0 "(0, 0)" "(1, 1)" "[]" fresh] r n
  obtain g d where d: "destination maze_example = Some d"
    and f: "f_score s' (0, 1)
      = Some (g + enat (nat (manhatten_distance (get_position (grid_vertices 2 fresh) (0, 1))
           (get_position (grid_vertices 2 fresh) d))))"
    and k: "queue s' = queue s0 @
      [(g + enat (nat (manhatten_distance (get_position (grid_vertices 2 fresh) (0, 1))
           (get_position (grid_vertices 2 fresh) d))), count s', (0, 1))]"
    by blast
  from k q' have "g + enat (nat (manhatten_distance (get_position (grid_vertices 2 fresh) (0, 1))
           (get_position (grid_vertices 2 fresh) d))) = 2"
    by (simp add: s0_def a_star_init_def)
  with f have "f_score s' (0, 1) = Some 2" by simp
  with q' r show ?thesis by (simp add: s0_def)
qed

theorem a_star_start_key_counterexample:
  "Some (fst (hd (queue (a_star_init (grid_vertices 2 fresh) maze_example (0, 0) (1, 1) [] fresh))))
   \<noteq> f_score (a_star_init (grid_vertices 2 fresh) maze_example (0, 0) (1, 1) [] fresh)
        (snd (snd (hd (queue (a_star_init (grid_vertices 2 fresh) maze_example (0, 0) (1, 1) [] fresh)))))"
  by (simp add: a_star_init_def grid_vertices_def zero_enat_def)

subsection \<open>Path reconstruction\<close>

lemma chain_unique: "chain cf v ps \<Longrightarrow> chain cf v qs \<Longrightarrow> ps = qs"
proof (induction ps arbitrary: v qs)
  case Nil
  then show ?case by (cases qs) auto
next
  case (Cons p ps)
  then show ?case by (cases qs) auto
qed

lemma chain_suffix: "chain cf v (ps @ u # qs) \<Longrightarrow> chain cf u qs"
  by (induction ps arbitrary: v) auto

lemma chain_not_self:
  assumes "chain cf v ps"
  shows "v \<notin> set ps"
proof
  assume "v \<in> set ps"
  then obtain xs ys where ps: "ps = xs @ v # ys"
    by (auto simp: in_set_conv_decomp)
  with assms have "chain cf v ys" by (auto dest: chain_suffix)
  with assms have "ps = ys" by (rule chain_unique)
  with ps show False by simp
qed

lemma chain_last: "chain cf v ps \<Longrightarrow> ps \<noteq> [] \<Longrightarrow> cf (last ps) = None"
  by (induction ps arbitrary: v) (auto split: if_splits)

lemma reconstruct_path_chain:
  "chain cf d ps \<Longrightarrow>
   reconstruct_path True cf d st = Some (None, \<lambda>v. if v \<in> set ps then Path else st v)"
proof (induction ps arbitrary: d st)
  case Nil
  then show ?case by (simp add: reconstruct_path.simps)
next
  case (Cons p ps)
  then have cf: "cf d = Some p" and ch: "chain cf p ps" by simp_all
  have "reconstruct_path True cf d st = reconstruct_path True cf p (make_path p st)"
    by (subst reconstruct_path.simps) (simp add: cf)
  also have "\<dots> = Some (None, \<lambda>v. if v \<in> set ps then Path else make_path p st v)"
    by (rule Cons.IH [OF ch])
  also have "(\<lambda>v. if v \<in> set ps then Path else make_path p st v)
      = (\<lambda>v. if v \<in> set (p # ps) then Path else st v)"
    by (auto simp: make_apply)
  finally show ?case .
qed

text \<open>
  Claim C5, as the code has it. When following \<open>came_from\<close> backwards from the
  destination visits the vertices \<open>ps\<close> and ends there, \<^verbatim>\<open>__reconstruct_path\<close> returns and
  has marked as Path exactly the vertices \<open>ps\<close>: every vertex of the path before the
  destination, the last of them included, which is the vertex without an entry in
  \<open>came_from\<close> (the start vertex in a search). The destination itself is not among them
  and keeps its state. The start vertex is marked Start by the caller, after the
  reconstruction has returned and on top of the mark Path.
\<close>

theorem reconstruct_path_marks:
  assumes "chain cf d ps"
  shows "reconstruct_path True cf d st = Some (None, \<lambda>v. if v \<in> set ps then Path else st v)
    \<and> d \<notin> set ps
    \<and> (ps \<noteq> [] \<longrightarrow> cf (last ps) = None \<and> marked (reconstruct_path True cf d st) (last ps) = Some Path)
    \<and> marked (reconstruct_path True cf d st) d = Some (st d)
    \<and> (pygame_init s \<and> came_from s = cf \<and> states s = st \<and> start pf = Some b \<longrightarrow>
         finish pf d s = Some (Some (Inr True),
           s\<lparr>states := make_start b (\<lambda>v. if v \<in> set ps then Path else st v)\<rparr>))"
  using assms
  by (auto simp: reconstruct_path_chain chain_not_self chain_last marked_def finish_def)

theorem reconstruct_path_marks_witness:
  "chain two_steps (1, 1) [(0, 1), (0, 0)]
   \<and> marked (reconstruct_path True two_steps (1, 1) fresh) (0, 1) = Some Path
   \<and> marked (reconstruct_path True two_steps (1, 1) fresh) (0, 0) = Some Path
   \<and> marked (reconstruct_path True two_steps (1, 1) fresh) (1, 1) = Some Default"
proof -
  have c: "chain two_steps (1, 1) [(0, 1), (0, 0)]"
    by (simp add: two_steps_def)
  have r: "reconstruct_path True two_steps (1, 1) fresh
      = Some (None, \<lambda>v. if v \<in> set [(0, 1), (0, 0)] then Path else fresh v)"
    using reconstruct_path_marks [OF c, of fresh undefined undefined undefined]
    by (rule conjunct1)
  show ?thesis
    unfolding r using c by (simp add: marked_def fresh_def)
qed

theorem reconstruct_path_marks_start_counterexample:
  "one_step (0, 0) = None
   \<and> marked (reconstruct_path True one_step (0, 1) fresh) (0, 0) = Some Path"
  by (simp add: reconstruct_path.simps marked_def make_apply one_step_def)

subsection \<open>The priority queue\<close>

lemma entry_le_refl: "entry_le e e"
  by (cases e) simp

lemma entry_le_trans: "entry_le a b \<Longrightarrow> entry_le b c \<Longrightarrow> entry_le a c"
  by (cases a, cases b, cases c) auto

lemma entry_le_total: "entry_le a b \<or> entry_le b a"
  by (cases a, cases b) auto

lemma queue_min_mem: "queue_min m es \<in> set (m # es)"
  by (induction es arbitrary: m) (auto split: if_splits)

lemma queue_min_le_first: "entry_le (queue_min m es) m"
proof (induction es arbitrary: m)
  case Nil
  show ?case by (simp add: entry_le_refl)
next
  case (Cons e es)
  show ?case
  proof (cases "entry_le m e")
    case True
    with Cons [of m] show ?thesis by simp
  next
    case False
    then have "entry_le e m" using entry_le_total by blast
    with Cons [of e] False show ?thesis by (auto intro: entry_le_trans)
  qed
qed

lemma queue_min_least: "e \<in> set (m # es) \<Longrightarrow> entry_le (queue_min m es) e"
proof (induction es arbitrary: m)
  case Nil
  then show ?case by (simp add: entry_le_refl)
next
  case (Cons x es)
  let ?m' = "if entry_le m x then m else x"
  have step: "queue_min m (x # es) = queue_min ?m' es" by simp
  have m': "entry_le ?m' m" "entry_le ?m' x"
    using entry_le_total [of m x] by (auto simp: entry_le_refl)
  from Cons.prems consider "e = m" | "e = x" | "e \<in> set es" by auto
  then show ?case
  proof cases
    case 1
    then show ?thesis
      unfolding step using queue_min_le_first [of ?m' es] m'(1) by (blast intro: entry_le_trans)
  next
    case 2
    then show ?thesis
      unfolding step using queue_min_le_first [of ?m' es] m'(2) by (blast intro: entry_le_trans)
  next
    case 3
    then show ?thesis
      unfolding step using Cons.IH [of ?m'] by simp
  qed
qed

lemma queue_get_mem: "q \<noteq> [] \<Longrightarrow> fst (queue_get q) \<in> set q"
  using queue_min_mem [of "hd q" "tl q"] by (cases q) (simp_all add: queue_get_def Let_def)

lemma queue_get_rest: "snd (queue_get q) = remove1 (fst (queue_get q)) q"
  by (simp add: queue_get_def Let_def)

lemma queue_get_least: "q \<noteq> [] \<Longrightarrow> e \<in> set q \<Longrightarrow> entry_le (fst (queue_get q)) e"
  using queue_min_least [of e "hd q" "tl q"] by (cases q) (simp_all add: queue_get_def Let_def)

lemma entry_le_antisym:
  assumes "entry_le a b" and "entry_le b a" and "fst (snd a) = fst (snd b) \<longrightarrow> a = b"
  shows "a = b"
  using assms by (cases a, cases b) auto

lemma distinct_counts_eq:
  assumes "distinct (counts_of q)" and "a \<in> set q" and "b \<in> set q"
    and "fst (snd a) = fst (snd b)"
  shows "a = b"
  using assms unfolding counts_of_def by (auto simp: distinct_map inj_on_def)

lemma queue_get_unique:
  assumes "distinct (counts_of q)" and "e \<in> set q" and "\<And>x. x \<in> set q \<Longrightarrow> entry_le e x"
  shows "fst (queue_get q) = e"
proof -
  from assms(2) have ne: "q \<noteq> []" by auto
  have m: "fst (queue_get q) \<in> set q" using ne by (rule queue_get_mem)
  have 1: "entry_le (fst (queue_get q)) e" using ne assms(2) by (rule queue_get_least)
  have 2: "entry_le e (fst (queue_get q))" using m by (rule assms(3))
  show ?thesis
    using 1 2 distinct_counts_eq [OF assms(1) m assms(2)] by (blast intro: entry_le_antisym)
qed

lemma queue_get_mset:
  assumes "mset q = mset q'" and "distinct (counts_of q)" and "q \<noteq> []"
  shows "fst (queue_get q') = fst (queue_get q)"
proof -
  have s: "set q' = set q" using assms(1) by (metis set_mset_mset)
  have d: "distinct (counts_of q')"
  proof -
    have "mset (counts_of q') = mset (counts_of q)"
      unfolding counts_of_def using assms(1) by (metis mset_map)
    then show ?thesis using assms(2) by (metis distinct_count_atmost_1 set_mset_mset)
  qed
  show ?thesis
  proof (rule queue_get_unique [OF d])
    show "fst (queue_get q) \<in> set q'" using s assms(3) by (simp add: queue_get_mem)
    show "\<And>x. x \<in> set q' \<Longrightarrow> entry_le (fst (queue_get q)) x"
      using s assms(3) by (simp add: queue_get_least)
  qed
qed

subsection \<open>One relaxation: its effect, the invariant and the measure\<close>

lemma push_fields:
  "count (push k n pf s) = Suc (count s)"
  "queue (push k n pf s) = queue s @ [(k, Suc (count s), n)]"
  "visited (push k n pf s) = insert n (visited s)"
  "came_from (push k n pf s) = came_from s"
  "distance (push k n pf s) = distance s"
  "f_score (push k n pf s) = f_score s"
  "pygame_init (push k n pf s) = pygame_init s"
  "events (push k n pf s) = events s"
  "popped (push k n pf s) = popped s"
  "states (push k n pf s)
     = (if Some n \<noteq> destination pf then make_visiting n (states s) else states s)"
  by (simp_all add: push_def Let_def)

lemma relax_effect:
  assumes "relax alg vx pf cur n s = (r, s')"
  obtains
    (same) "s' = s"
      and "r \<noteq> None \<or> (\<exists>dc dn. distance s cur = Some dc \<and> distance s n = Some dn \<and> \<not> dc + 1 < dn)"
  | (update) dc dn fs where "distance s cur = Some (enat dc)" and "distance s n = Some dn"
      and "enat (Suc dc) < dn"
      and "s' = s\<lparr>came_from := (came_from s)(n \<mapsto> cur),
                   distance := (distance s)(n \<mapsto> enat (Suc dc)), f_score := fs\<rparr>"
      and "n \<in> visited s \<or> r \<noteq> None"
  | (pushed) dc dn fs where "distance s cur = Some (enat dc)" and "distance s n = Some dn"
      and "enat (Suc dc) < dn" and "n \<notin> visited s" and "r = None"
      and "s' = push (enat (Suc dc + heur alg vx pf n)) n pf
                  (s\<lparr>came_from := (came_from s)(n \<mapsto> cur),
                     distance := (distance s)(n \<mapsto> enat (Suc dc)), f_score := fs\<rparr>)"
proof (cases "distance s cur")
  case None
  with assms have "s' = s" "r \<noteq> None" by (auto simp: relax_def)
  then show ?thesis by (rule same [OF _ disjI1])
next
  case (Some dc)
  note dc = this
  show ?thesis
  proof (cases "distance s n")
    case None
    with assms dc have "s' = s" "r \<noteq> None" by (auto simp: relax_def Let_def)
    then show ?thesis by (rule same [OF _ disjI1])
  next
    case (Some dn)
    note dn = this
    show ?thesis
    proof (cases "dc + 1 < dn")
      case False
      with assms dc dn have "s' = s" by (simp add: relax_def Let_def)
      moreover have "\<exists>dc dn. distance s cur = Some dc \<and> distance s n = Some dn \<and> \<not> dc + 1 < dn"
        using dc dn False by blast
      ultimately show ?thesis by (rule same [OF _ disjI2])
    next
      case True
      then obtain a where a: "dc = enat a" by (cases dc) auto
      have t: "dc + 1 = enat (Suc a)" by (simp add: a one_enat_def)
      have lt: "enat (Suc a) < dn" using True t by simp
      have da: "distance s cur = Some (enat a)" using dc a by simp
      let ?s2 = "s\<lparr>came_from := (came_from s)(n \<mapsto> cur),
                    distance := (distance s)(n \<mapsto> enat (Suc a))\<rparr>"
      show ?thesis
      proof (cases alg)
        case Dijkstra
        have h: "heur alg vx pf n = 0" by (simp add: heur_def Dijkstra)
        have s2: "?s2 = s\<lparr>came_from := (came_from s)(n \<mapsto> cur),
                    distance := (distance s)(n \<mapsto> enat (Suc a)), f_score := f_score s\<rparr>"
          by simp
        show ?thesis
        proof (cases "n \<in> visited s")
          case True
          with assms dc dn lt t Dijkstra have "s' = ?s2"
            by (simp add: relax_def Let_def)
          with s2 show ?thesis using update [OF da dn lt _ disjI1 [OF True]] by metis
        next
          case False
          with assms dc dn lt t Dijkstra have "s' = push (enat (Suc a)) n pf ?s2" "r = None"
            by (simp_all add: relax_def Let_def)
          with s2 h show ?thesis using pushed [OF da dn lt False, of "f_score s"] by simp
        qed
      next
        case AStar
        show ?thesis
        proof (cases "destination pf")
          case None
          with assms dc dn lt t AStar have "s' = ?s2" "r \<noteq> None"
            by (auto simp: relax_def Let_def)
          moreover have "?s2 = s\<lparr>came_from := (came_from s)(n \<mapsto> cur),
                    distance := (distance s)(n \<mapsto> enat (Suc a)), f_score := f_score s\<rparr>"
            by simp
          ultimately show ?thesis using update [OF da dn lt _ disjI2] by metis
        next
          case (Some d)
          let ?h = "nat (manhatten_distance (get_position vx n) (get_position vx d))"
          have h: "heur alg vx pf n = ?h" by (simp add: heur_def AStar Some)
          let ?fs = "(f_score s)(n \<mapsto> enat (Suc a) + enat ?h)"
          let ?s3 = "s\<lparr>came_from := (came_from s)(n \<mapsto> cur),
                    distance := (distance s)(n \<mapsto> enat (Suc a)), f_score := ?fs\<rparr>"
          show ?thesis
          proof (cases "n \<in> visited s")
            case True
            with assms dc dn lt t AStar Some have "s' = ?s3"
              by (simp add: relax_def Let_def)
            then show ?thesis using update [OF da dn lt _ disjI1 [OF True]] by metis
          next
            case False
            with assms dc dn lt t AStar Some
            have "s' = push (enat (Suc a) + enat ?h) n pf ?s3" "r = None"
              by (simp_all add: relax_def Let_def)
            with h show ?thesis using pushed [OF da dn lt False, of ?fs] by simp
          qed
        qed
      qed
    qed
  qed
qed

lemma fins_update_finite:
  assumes "finite (dom d)" and "d n = Some (enat b)"
  shows "(\<Sum>v \<in> dom (d(n \<mapsto> enat a)). fin_cost ((d(n \<mapsto> enat a)) v)) + b
       = (\<Sum>v \<in> dom d. fin_cost (d v)) + a"
proof -
  have n: "n \<in> dom d" using assms(2) by auto
  then have dom: "dom (d(n \<mapsto> enat a)) = dom d" by auto
  have 1: "(\<Sum>v \<in> dom d. fin_cost (d v)) = fin_cost (d n) + (\<Sum>v \<in> dom d - {n}. fin_cost (d v))"
    using assms(1) n by (rule sum.remove)
  have 2: "(\<Sum>v \<in> dom d. fin_cost ((d(n \<mapsto> enat a)) v))
      = fin_cost ((d(n \<mapsto> enat a)) n) + (\<Sum>v \<in> dom d - {n}. fin_cost ((d(n \<mapsto> enat a)) v))"
    using assms(1) n by (rule sum.remove)
  have 3: "(\<Sum>v \<in> dom d - {n}. fin_cost ((d(n \<mapsto> enat a)) v)) = (\<Sum>v \<in> dom d - {n}. fin_cost (d v))"
    by (rule sum.cong) auto
  show ?thesis
    unfolding dom using 1 2 3 assms(2) by (simp add: fin_cost_def)
qed

lemma fins_update_inf:
  assumes "finite (dom d)" and "d n = Some \<infinity>"
  shows "{v. (d(n \<mapsto> enat a)) v = Some \<infinity>} = {v. d v = Some \<infinity>} - {n}"
    and "finite {v. d v = Some \<infinity>}" and "n \<in> {v. d v = Some \<infinity>}"
proof -
  show "{v. (d(n \<mapsto> enat a)) v = Some \<infinity>} = {v. d v = Some \<infinity>} - {n}" by auto
  have "{v. d v = Some \<infinity>} \<subseteq> dom d" by auto
  then show "finite {v. d v = Some \<infinity>}" using assms(1) by (rule finite_subset)
  show "n \<in> {v. d v = Some \<infinity>}" using assms(2) by simp
qed

lemma measure_update:
  assumes "finite (dom (distance s))" and "distance s n = Some dn" and "enat a < dn"
    and "distance s' = (distance s)(n \<mapsto> enat a)"
  shows "infs s' < infs s \<or> (infs s' = infs s \<and> fins s' < fins s)"
proof (cases dn)
  case (enat b)
  with assms(3) have ab: "a < b" by simp
  have "{v. distance s' v = Some \<infinity>} = {v. distance s v = Some \<infinity>}"
    using assms(2,4) enat by auto
  then have "infs s' = infs s" by (simp add: infs_def)
  moreover have "fins s' + b = fins s + a"
    unfolding fins_def assms(4)
    by (rule fins_update_finite [OF assms(1)]) (simp add: assms(2) enat)
  ultimately show ?thesis using ab by simp
next
  case infinity
  with assms have i: "distance s n = Some \<infinity>" by simp
  have "infs s' = card ({v. distance s v = Some \<infinity>} - {n})"
    unfolding infs_def assms(4) using fins_update_inf(1) [OF assms(1) i] by simp
  also have "\<dots> < card {v. distance s v = Some \<infinity>}"
    using fins_update_inf(2,3) [OF assms(1) i] by (rule card_Diff1_less)
  finally show ?thesis by (simp add: infs_def)
qed

lemma search_le_refl: "search_le s s"
  by (simp add: search_le_def)

lemma search_le_trans: "search_le a b \<Longrightarrow> search_le b c \<Longrightarrow> search_le a c"
  unfolding search_le_def by auto

lemma search_le_less: "search_le a b \<Longrightarrow> search_less b c \<Longrightarrow> search_less a c"
  unfolding search_le_def search_less_def by auto

lemma inv_update:
  assumes inv: "search_inv s" and dc: "distance s cur = Some (enat dc)"
    and dn: "distance s n = Some dn" and lt: "enat (Suc dc) < dn"
    and cf: "came_from s' = (came_from s)(n \<mapsto> cur)"
    and d: "distance s' = (distance s)(n \<mapsto> enat (Suc dc))"
    and q: "(queue s' = queue s \<and> visited s' = visited s \<and> count s' = count s)
       \<or> (n \<notin> visited s \<and> queue s' = queue s @ [(k, Suc (count s), n)]
            \<and> visited s' = insert n (visited s) \<and> count s' = Suc (count s))"
  shows "search_inv s'"
proof -
  have ne: "cur \<noteq> n" using dc dn lt by auto
  have fin: "finite (dom (distance s'))" using inv d by (simp add: search_inv_def)
  have chain: "\<exists>a b. distance s' p = Some (enat a) \<and> distance s' v = Some (enat b) \<and> a < b"
    if "came_from s' v = Some p" for v p
  proof (cases "v = n")
    case True
    with that cf have "p = cur" by simp
    with True ne dc d show ?thesis by auto
  next
    case False
    with that cf have "came_from s v = Some p" by simp
    with inv obtain a b where ab: "distance s p = Some (enat a)" "distance s v = Some (enat b)" "a < b"
      unfolding search_inv_def by blast
    show ?thesis
    proof (cases "p = n")
      case True
      with ab dn lt have "Suc dc < a" by simp
      with ab True False d show ?thesis by auto
    next
      case pn: False
      with ab False d show ?thesis by auto
    qed
  qed
  have vis: "\<exists>a. distance s' v = Some (enat a)" if "v \<in> visited s'" for v
  proof (cases "v = n")
    case True
    with d show ?thesis by simp
  next
    case False
    with that q have "v \<in> visited s" by auto
    with inv False d show ?thesis by (auto simp: search_inv_def)
  qed
  from q have rest: "visited s' = set (vertices_of (queue s')) \<and> distinct (vertices_of (queue s'))
      \<and> counts_ok s'"
  proof
    assume "queue s' = queue s \<and> visited s' = visited s \<and> count s' = count s"
    with inv show ?thesis by (simp add: search_inv_def counts_ok_def)
  next
    assume a: "n \<notin> visited s \<and> queue s' = queue s @ [(k, Suc (count s), n)]
            \<and> visited s' = insert n (visited s) \<and> count s' = Suc (count s)"
    have "Suc (count s) \<notin> set (counts_of (queue s))"
      using inv by (auto simp: search_inv_def counts_ok_def)
    with inv a show ?thesis
      by (auto simp: search_inv_def counts_ok_def vertices_of_def counts_of_def)
  qed
  show ?thesis
    unfolding search_inv_def using fin chain vis rest by blast
qed

lemma relax_inv:
  assumes "search_inv s" and "relax alg vx pf cur n s = (r, s')"
  shows "search_inv s' \<and> search_le s' s"
  using assms(2)
proof (cases rule: relax_effect)
  case same
  with assms(1) show ?thesis by (simp add: search_le_refl)
next
  case (update dc dn fs)
  have fin: "finite (dom (distance s))" using assms(1) by (simp add: search_inv_def)
  have "search_inv s'"
    by (rule inv_update [OF assms(1) update(1,2,3), where k = 0]) (simp_all add: update(4))
  moreover have "infs s' < infs s \<or> (infs s' = infs s \<and> fins s' < fins s)"
    by (rule measure_update [OF fin update(2,3)]) (simp add: update(4))
  then have "search_le s' s" by (auto simp: search_le_def update(4))
  ultimately show ?thesis ..
next
  case (pushed dc dn fs)
  have fin: "finite (dom (distance s))" using assms(1) by (simp add: search_inv_def)
  have "search_inv s'"
    by (rule inv_update [OF assms(1) pushed(1,2,3), where k = "enat (Suc dc + heur alg vx pf n)"])
      (simp_all add: pushed(4,6) push_fields)
  moreover have "infs s' < infs s \<or> (infs s' = infs s \<and> fins s' < fins s)"
    by (rule measure_update [OF fin pushed(2,3)]) (simp add: pushed(6) push_fields)
  then have "search_le s' s" by (auto simp: search_le_def pushed(6) push_fields)
  ultimately show ?thesis ..
qed

lemma relax_all_inv:
  "search_inv s \<Longrightarrow> relax_all alg vx pf cur ns s = (r, s') \<Longrightarrow> search_inv s' \<and> search_le s' s"
proof (induction ns arbitrary: s)
  case Nil
  then show ?case by (simp add: search_le_refl)
next
  case (Cons n ns)
  obtain r1 s1 where r1: "relax alg vx pf cur n s = (r1, s1)"
    by (cases "relax alg vx pf cur n s")
  from relax_inv [OF Cons.prems(1) r1] have s1: "search_inv s1" "search_le s1 s" by simp_all
  show ?case
  proof (cases r1)
    case None
    with Cons.prems(2) r1 have "relax_all alg vx pf cur ns s1 = (r, s')" by simp
    from Cons.IH [OF s1(1) this] s1(2) show ?thesis by (blast intro: search_le_trans)
  next
    case (Some e)
    with Cons.prems(2) r1 have "s' = s1" by simp
    with s1 show ?thesis by simp
  qed
qed

subsection \<open>One pass of the loop\<close>

lemma search_inv_cong:
  assumes "distance s' = distance s" and "came_from s' = came_from s"
    and "visited s' = visited s" and "queue s' = queue s" and "count s' = count s"
  shows "search_inv s' = search_inv s"
  using assms by (simp add: search_inv_def counts_ok_def)

lemma search_le_cong:
  assumes "distance s' = distance s" and "queue s' = queue s"
  shows "search_le s' t = search_le s t" and "search_le t s' = search_le t s"
    and "search_less s' t = search_less s t" and "search_less t s' = search_less t s"
  using assms by (simp_all add: search_le_def search_less_def infs_def fins_def)

lemma poll_events_fields:
  "count (snd (poll_events s)) = count s"
  "queue (snd (poll_events s)) = queue s"
  "visited (snd (poll_events s)) = visited s"
  "came_from (snd (poll_events s)) = came_from s"
  "distance (snd (poll_events s)) = distance s"
  "f_score (snd (poll_events s)) = f_score s"
  "states (snd (poll_events s)) = states s"
  "popped (snd (poll_events s)) = popped s"
  by (simp_all add: poll_events_def)

lemma poll_events_error:
  "fst (poll_events s) = (if pygame_init s then None else Some PygameError)"
  "\<not> pygame_init s \<Longrightarrow> snd (poll_events s) = s"
  by (simp_all add: poll_events_def)

lemma after_pop_fields:
  "count (after_pop s) = count s"
  "queue (after_pop s) = remove1 (fst (queue_get (queue s))) (queue s)"
  "visited (after_pop s) = visited s - {current_of s}"
  "came_from (after_pop s) = came_from s"
  "distance (after_pop s) = distance s"
  "f_score (after_pop s) = f_score s"
  "states (after_pop s) = states s"
  "popped (after_pop s) = popped s @ [current_of s]"
  "pygame_init (after_pop s) = pygame_init (snd (poll_events s))"
  "events (after_pop s) = events (snd (poll_events s))"
  by (simp_all add: after_pop_def poll_events_fields queue_get_rest)

lemma current_of_visited:
  assumes "search_inv s" and "queue s \<noteq> []"
  shows "current_of s \<in> visited s"
proof -
  have "fst (queue_get (queue s)) \<in> set (queue s)" using assms(2) by (rule queue_get_mem)
  then have "current_of s \<in> set (vertices_of (queue s))"
    by (force simp: current_of_def vertices_of_def)
  with assms(1) show ?thesis by (simp add: search_inv_def)
qed

lemma map_remove1_inj:
  assumes "inj_on f (set xs)" and "x \<in> set xs"
  shows "map f (remove1 x xs) = remove1 (f x) (map f xs)"
  using assms
proof (induction xs)
  case Nil
  then show ?case by simp
next
  case (Cons y ys)
  show ?case
  proof (cases "x = y")
    case True
    then show ?thesis by simp
  next
    case False
    with Cons.prems have "x \<in> set ys" "f x \<noteq> f y" "inj_on f (set ys)"
      by (auto simp: inj_on_def)
    with Cons.IH False show ?thesis by simp
  qed
qed

lemma after_pop_inv:
  assumes inv: "search_inv s" and ne: "queue s \<noteq> []"
  shows "search_inv (after_pop s)" and "search_less (after_pop s) s"
proof -
  let ?m = "fst (queue_get (queue s))"
  have m: "?m \<in> set (queue s)" using ne by (rule queue_get_mem)
  have dv: "distinct (vertices_of (queue s))" and dc: "distinct (counts_of (queue s))"
    and vis: "visited s = set (vertices_of (queue s))"
    using inv by (simp_all add: search_inv_def counts_ok_def)
  have iv: "inj_on (\<lambda>e. snd (snd e)) (set (queue s))"
    using dv by (simp add: vertices_of_def distinct_map)
  have ic: "inj_on (\<lambda>e. fst (snd e)) (set (queue s))"
    using dc by (simp add: counts_of_def distinct_map)
  have v: "vertices_of (remove1 ?m (queue s)) = remove1 (current_of s) (vertices_of (queue s))"
    unfolding vertices_of_def current_of_def using iv m by (rule map_remove1_inj)
  have c: "counts_of (remove1 ?m (queue s)) = remove1 (fst (snd ?m)) (counts_of (queue s))"
    unfolding counts_of_def using ic m by (rule map_remove1_inj)
  have "set (counts_of (remove1 ?m (queue s))) \<subseteq> set (counts_of (queue s))"
    unfolding c by (rule set_remove1_subset)
  with inv have cok: "counts_ok (after_pop s)"
    by (auto simp: counts_ok_def search_inv_def after_pop_fields c)
  have "visited (after_pop s) = set (vertices_of (queue (after_pop s)))"
    by (simp add: after_pop_fields v vis dv)
  moreover have "distinct (vertices_of (queue (after_pop s)))"
    by (simp add: after_pop_fields v dv)
  moreover have "\<forall>v \<in> visited (after_pop s). \<exists>a. distance (after_pop s) v = Some (enat a)"
    using inv by (simp add: search_inv_def after_pop_fields)
  moreover have "finite (dom (distance (after_pop s)))"
    using inv by (simp add: search_inv_def after_pop_fields)
  moreover have "\<forall>v p. came_from (after_pop s) v = Some p \<longrightarrow>
      (\<exists>a b. distance (after_pop s) p = Some (enat a)
         \<and> distance (after_pop s) v = Some (enat b) \<and> a < b)"
    using inv by (simp add: search_inv_def after_pop_fields)
  ultimately show "search_inv (after_pop s)"
    using cok unfolding search_inv_def by blast
  have "length (queue (after_pop s)) < length (queue s)"
    using m ne by (simp add: after_pop_fields length_remove1)
  then show "search_less (after_pop s) s"
    by (simp add: search_less_def infs_def fins_def after_pop_fields)
qed

lemma iteration_unfold:
  assumes "search_inv s" and "queue s \<noteq> []"
  shows "iteration alg vx pf s =
     (if \<not> pygame_init s then Some (Some (Inl PygameError), s)
      else if Some (current_of s) = destination pf then finish pf (current_of s) (after_pop s)
      else Some (expand alg vx pf (current_of s) (after_pop s)))"
proof (cases "pygame_init s")
  case False
  then show ?thesis by (simp add: iteration_def poll_events_def)
next
  case True
  obtain s1 where p: "poll_events s = (None, s1)"
    using True by (simp add: poll_events_def)
  have s1: "s1 = snd (poll_events s)" using p by simp
  have q: "queue s1 = queue s" "popped s1 = popped s" "visited s1 = visited s"
    by (simp_all add: s1 poll_events_fields)
  have cur: "current_of s \<in> visited s" using assms by (rule current_of_visited)
  obtain entry q' where g: "queue_get (queue s) = (entry, q')" by (cases "queue_get (queue s)")
  have c: "snd (snd entry) = current_of s" using g by (simp add: current_of_def)
  have ap: "after_pop s = s1\<lparr>queue := q', popped := popped s1 @ [current_of s],
      visited := visited s1 - {current_of s}\<rparr>"
    by (simp add: after_pop_def s1 g poll_events_fields)
  have ap': "s1\<lparr>queue := q', popped := popped s @ [current_of s],
      visited := visited s - {current_of s}\<rparr> = after_pop s"
    using ap q by simp
  show ?thesis
    using True assms(2) cur
    by (simp add: iteration_def p q g c Let_def ap')
qed

lemma expand_inv:
  assumes "search_inv s" and "expand alg vx pf cur s = (r, s')"
  shows "search_inv s' \<and> search_le s' s"
proof -
  obtain r1 s1 where r1: "relax_all alg vx pf cur (neighbors vx cur) s = (r1, s1)"
    by (cases "relax_all alg vx pf cur (neighbors vx cur) s")
  from relax_all_inv [OF assms(1) r1] have s1: "search_inv s1" "search_le s1 s" by simp_all
  have "s' = s1 \<or> s' = s1\<lparr>states := make_visited cur (states s1)\<rparr>"
    using assms(2) r1 by (auto simp: expand_def split: option.splits if_splits)
  then show ?thesis
  proof
    assume "s' = s1"
    with s1 show ?thesis by simp
  next
    assume s': "s' = s1\<lparr>states := make_visited cur (states s1)\<rparr>"
    have "search_inv s' = search_inv s1" by (rule search_inv_cong) (simp_all add: s')
    moreover have "search_le s' s = search_le s1 s" by (rule search_le_cong) (simp_all add: s')
    ultimately show ?thesis using s1 by simp
  qed
qed

lemma acyclic_chain:
  assumes "\<And>v p. cf v = Some p \<Longrightarrow> rank p < (rank v :: nat)"
  shows "\<exists>ps. chain cf d ps \<and> (\<forall>p \<in> set ps. rank p < rank d)"
proof (induction "rank d" arbitrary: d rule: less_induct)
  case less
  show ?case
  proof (cases "cf d")
    case None
    then have "chain cf d []" by simp
    then show ?thesis by fastforce
  next
    case (Some p)
    then have lt: "rank p < rank d" by (rule assms)
    from less [OF lt] obtain ps where ps: "chain cf p ps" "\<forall>q \<in> set ps. rank q < rank p" by blast
    have "chain cf d (p # ps)" using Some ps(1) by simp
    moreover have "\<forall>q \<in> set (p # ps). rank q < rank d" using lt ps(2) by auto
    ultimately show ?thesis by blast
  qed
qed

lemma search_inv_chain:
  assumes "search_inv s"
  shows "\<exists>ps. chain (came_from s) d ps"
proof -
  have "\<And>v p. came_from s v = Some p \<Longrightarrow> fin_cost (distance s p) < fin_cost (distance s v)"
  proof -
    fix v p
    assume "came_from s v = Some p"
    with assms obtain a b where "distance s p = Some (enat a)" "distance s v = Some (enat b)" "a < b"
      unfolding search_inv_def by blast
    then show "fin_cost (distance s p) < fin_cost (distance s v)" by (simp add: fin_cost_def)
  qed
  from acyclic_chain [of "came_from s" "\<lambda>v. fin_cost (distance s v)" d, OF this]
  show ?thesis by blast
qed

lemma reconstruct_path_dead:
  "reconstruct_path False cf d st =
     Some (case cf d of None \<Rightarrow> (None, st) | Some p \<Rightarrow> (Some PygameError, make_path p st))"
  by (subst reconstruct_path.simps) (simp split: option.splits)

lemma reconstruct_path_total:
  assumes "chain cf d ps"
  shows "\<exists>e st'. reconstruct_path alive cf d st = Some (e, st') \<and> st' d = st d"
proof (cases alive)
  case True
  from reconstruct_path_chain [OF assms, of st] chain_not_self [OF assms] True
  show ?thesis by simp
next
  case False
  show ?thesis
  proof (cases ps)
    case Nil
    with assms False show ?thesis by (simp add: reconstruct_path_dead)
  next
    case (Cons p qs)
    with assms have "cf d = Some p" "p \<noteq> d" using chain_not_self [OF assms] by auto
    with False show ?thesis by (simp add: reconstruct_path_dead make_apply)
  qed
qed

lemma reconstruct_path_alive:
  assumes "reconstruct_path alive cf d st = Some y"
  shows "alive \<longrightarrow> fst y = None"
proof (rule reconstruct_path.raw_induct [where P = "\<lambda>alive cf d st y. alive \<longrightarrow> fst y = None"])
  show "reconstruct_path alive cf d st = Some y" by (rule assms)
next
  fix rp :: "bool \<Rightarrow> ('a \<rightharpoonup> 'a) \<Rightarrow> 'a \<Rightarrow> 'a states \<Rightarrow> (error option \<times> 'a states) option"
  fix alive cf current st y
  assume IH: "\<And>alive cf current st y. rp alive cf current st = Some y \<Longrightarrow> alive \<longrightarrow> fst y = None"
    and eq: "(case cf current of None \<Rightarrow> Some (None, st)
      | Some p \<Rightarrow>
          let st' = make_path p st
          in if alive then rp alive cf p st' else Some (Some PygameError, st')) = Some y"
  show "alive \<longrightarrow> fst y = None"
  proof
    assume a: alive
    show "fst y = None"
    proof (cases "cf current")
      case None
      with eq show ?thesis by auto
    next
      case (Some p)
      with eq a have "rp alive cf p (make_path p st) = Some y" by (simp add: Let_def)
      from IH [OF this] a show ?thesis by simp
    qed
  qed
qed

lemma reconstruct_path_error:
  assumes "reconstruct_path alive cf d st = Some (Some e, st')"
  shows "e = PygameError \<and> \<not> alive"
proof (cases alive)
  case False
  with assms show ?thesis by (auto simp: reconstruct_path_dead split: option.splits)
next
  case True
  with reconstruct_path_alive [OF assms] show ?thesis by simp
qed

lemma finish_total:
  assumes "search_inv s"
  shows "\<exists>r s'. finish pf d s = Some (Some r, s')"
proof -
  from search_inv_chain [OF assms] obtain ps where "chain (came_from s) d ps" by blast
  from reconstruct_path_total [OF this]
  obtain e st' where "reconstruct_path (pygame_init s) (came_from s) d (states s) = Some (e, st')"
    by blast
  then show ?thesis
    by (cases e; cases "start pf") (simp_all add: finish_def)
qed

lemma iteration_total:
  assumes "search_inv s" and "queue s \<noteq> []"
  shows "\<exists>r s'. iteration alg vx pf s = Some (r, s')"
proof -
  have "search_inv (after_pop s)" using assms by (rule after_pop_inv)
  from finish_total [OF this, of pf "current_of s"]
  show ?thesis
    unfolding iteration_unfold [OF assms]
    by (cases "expand alg vx pf (current_of s) (after_pop s)") auto
qed

lemma iteration_continue:
  assumes "search_inv s" and "queue s \<noteq> []" and "iteration alg vx pf s = Some (None, s')"
  shows "search_inv s'" and "search_less s' s"
    and "pygame_init s" and "Some (current_of s) \<noteq> destination pf"
    and "expand alg vx pf (current_of s) (after_pop s) = (None, s')"
proof -
  have ap: "search_inv (after_pop s)" "search_less (after_pop s) s"
    using assms(1,2) by (rule after_pop_inv)+
  from finish_total [OF ap(1), of pf "current_of s"]
  have nf: "finish pf (current_of s) (after_pop s) \<noteq> Some (None, s')" by auto
  from assms(3) nf show a: "pygame_init s" "Some (current_of s) \<noteq> destination pf"
    and e: "expand alg vx pf (current_of s) (after_pop s) = (None, s')"
    unfolding iteration_unfold [OF assms(1,2)] by (auto split: if_splits)
  from expand_inv [OF ap(1) e] ap(2)
  show "search_inv s'" "search_less s' s" by (auto intro: search_le_less)
qed

subsection \<open>The loop ends\<close>

lemma wf_search_less: "wf {(s' :: 'v search_state, s). search_less s' s}"
proof -
  let ?m = "\<lambda>s :: 'v search_state. (infs s, 2 * fins s + length (queue s))"
  have "{(s', s). search_less s' s} = inv_image (less_than <*lex*> less_than) ?m"
    by (auto simp: search_less_def inv_image_def)
  moreover have "wf (inv_image (less_than <*lex*> less_than) ?m)"
    by (intro wf_inv_image wf_lex_prod wf_less_than)
  ultimately show ?thesis by simp
qed

lemma search_inv_induct:
  assumes "search_inv s"
    and "\<And>s. search_inv s \<Longrightarrow>
           (\<And>s'. queue s \<noteq> [] \<Longrightarrow> iteration alg vx pf s = Some (None, s') \<Longrightarrow> P s') \<Longrightarrow> P s"
  shows "P s"
proof -
  have "search_inv s \<longrightarrow> P s"
  proof (induction s rule: wf_induct_rule [OF wf_search_less])
    case (1 s)
    show ?case
    proof
      assume inv: "search_inv s"
      show "P s"
      proof (rule assms(2) [OF inv])
        fix s'
        assume "queue s \<noteq> []" "iteration alg vx pf s = Some (None, s')"
        from iteration_continue(1,2) [OF inv this] 1 show "P s'" by simp
      qed
    qed
  qed
  with assms(1) show ?thesis by simp
qed

lemma search_loop_total:
  assumes "search_inv s" and "J s"
    and step: "\<And>s s'. search_inv s \<Longrightarrow> J s \<Longrightarrow> queue s \<noteq> [] \<Longrightarrow>
         iteration alg vx pf s = Some (None, s') \<Longrightarrow> J s'"
    and stop: "\<And>s. search_inv s \<Longrightarrow> J s \<Longrightarrow> queue s = [] \<Longrightarrow> Q (Inr False) s"
    and leave: "\<And>s r s'. search_inv s \<Longrightarrow> J s \<Longrightarrow> queue s \<noteq> [] \<Longrightarrow>
         iteration alg vx pf s = Some (Some r, s') \<Longrightarrow> Q r s'"
  shows "\<exists>r s'. search_loop alg vx pf s = Some (r, s') \<and> Q r s'"
proof -
  have "J s \<longrightarrow> (\<exists>r s'. search_loop alg vx pf s = Some (r, s') \<and> Q r s')"
  proof (rule search_inv_induct [OF assms(1), where alg = alg and vx = vx and pf = pf])
    fix s
    assume inv: "search_inv s"
      and IH: "\<And>s'. queue s \<noteq> [] \<Longrightarrow> iteration alg vx pf s = Some (None, s') \<Longrightarrow>
          J s' \<longrightarrow> (\<exists>r t. search_loop alg vx pf s' = Some (r, t) \<and> Q r t)"
    show "J s \<longrightarrow> (\<exists>r s'. search_loop alg vx pf s = Some (r, s') \<and> Q r s')"
    proof
      assume J: "J s"
      show "\<exists>r s'. search_loop alg vx pf s = Some (r, s') \<and> Q r s'"
      proof (cases "queue s = []")
        case True
        then have "search_loop alg vx pf s = Some (Inr False, s)"
          by (subst search_loop.simps) simp
        with stop [OF inv J True] show ?thesis by simp
      next
        case False
        from iteration_total [OF inv False, of alg vx pf]
        obtain x s1 where it: "iteration alg vx pf s = Some (x, s1)" by blast
        show ?thesis
        proof (cases x)
          case None
          with it have it': "iteration alg vx pf s = Some (None, s1)" by simp
          have "search_loop alg vx pf s = search_loop alg vx pf s1"
            by (subst search_loop.simps) (simp add: False it')
          moreover have "J s1" using inv J False it' by (rule step)
          ultimately show ?thesis using IH [OF False it'] by simp
        next
          case (Some r)
          with it have it': "iteration alg vx pf s = Some (Some r, s1)" by simp
          have "search_loop alg vx pf s = Some (r, s1)"
            by (subst search_loop.simps) (simp add: False it')
          with leave [OF inv J False it'] show ?thesis by simp
        qed
      qed
    qed
  qed
  with assms(2) show ?thesis by simp
qed

lemma dijkstra_init_inv: "search_inv (dijkstra_init pf b evs st)"
proof -
  have "dom (all_inf pf) = set (concat (grid pf))"
    by (auto simp: all_inf_def dom_def)
  then have "finite (dom (all_inf pf))" by simp
  then show ?thesis
    by (simp add: search_inv_def dijkstra_init_def counts_ok_def vertices_of_def counts_of_def
        zero_enat_def)
qed

lemma a_star_init_inv: "search_inv (a_star_init vx pf b d evs st)"
proof -
  have "dom (all_inf pf) = set (concat (grid pf))"
    by (auto simp: all_inf_def dom_def)
  then have "finite (dom (all_inf pf))" by simp
  then show ?thesis
    by (simp add: search_inv_def a_star_init_def counts_ok_def vertices_of_def counts_of_def
        zero_enat_def)
qed

subsection \<open>What a pass leaves alone\<close>

lemma relax_frame:
  assumes "relax alg vx pf cur n s = (r, s')"
  shows "popped s' = popped s" and "pygame_init s' = pygame_init s" and "events s' = events s"
    and "destination pf = Some d \<Longrightarrow> states s' d = states s d"
  using assms
  by (cases rule: relax_effect; simp add: push_fields make_apply; fail)+

lemma relax_all_frame:
  "relax_all alg vx pf cur ns s = (r, s') \<Longrightarrow>
   popped s' = popped s \<and> pygame_init s' = pygame_init s \<and> events s' = events s
   \<and> (destination pf = Some d \<longrightarrow> states s' d = states s d)"
proof (induction ns arbitrary: s)
  case Nil
  then show ?case by simp
next
  case (Cons n ns)
  obtain r1 s1 where r1: "relax alg vx pf cur n s = (r1, s1)"
    by (cases "relax alg vx pf cur n s")
  note f = relax_frame [OF r1]
  show ?case
  proof (cases r1)
    case None
    with Cons.prems r1 have "relax_all alg vx pf cur ns s1 = (r, s')" by simp
    from Cons.IH [OF this] f show ?thesis by simp
  next
    case (Some e)
    with Cons.prems r1 have "s' = s1" by simp
    with f show ?thesis by simp
  qed
qed

lemma relax_error:
  assumes "relax alg vx pf cur n s = (Some e, s')"
  shows "e = KeyError \<or> (e = AttributeError \<and> alg = AStar \<and> destination pf = None)"
  using assms
  by (auto simp: relax_def Let_def split: option.splits if_splits algorithm.splits)

lemma relax_all_error:
  "relax_all alg vx pf cur ns s = (Some e, s') \<Longrightarrow>
   e = KeyError \<or> (e = AttributeError \<and> alg = AStar \<and> destination pf = None)"
proof (induction ns arbitrary: s)
  case Nil
  then show ?case by simp
next
  case (Cons n ns)
  obtain r1 s1 where r1: "relax alg vx pf cur n s = (r1, s1)"
    by (cases "relax alg vx pf cur n s")
  show ?case
  proof (cases r1)
    case None
    with Cons.prems r1 have "relax_all alg vx pf cur ns s1 = (Some e, s')" by simp
    then show ?thesis by (rule Cons.IH)
  next
    case (Some e')
    with Cons.prems r1 have "e' = e" by simp
    with Some r1 have "relax alg vx pf cur n s = (Some e, s1)" by simp
    then show ?thesis by (rule relax_error)
  qed
qed

lemma expand_frame:
  assumes "expand alg vx pf cur s = (x, s')"
  shows "popped s' = popped s" and "pygame_init s' = pygame_init s" and "events s' = events s"
    and "destination pf = Some d \<Longrightarrow> cur \<noteq> d \<Longrightarrow> states s' d = states s d"
    and "x \<noteq> Some (Inr b)"
    and "x = Some (Inl e) \<Longrightarrow>
           e = KeyError \<or> e = PygameError \<or> (e = AttributeError \<and> alg = AStar \<and> destination pf = None)"
proof -
  obtain r1 s1 where r1: "relax_all alg vx pf cur (neighbors vx cur) s = (r1, s1)"
    by (cases "relax_all alg vx pf cur (neighbors vx cur) s")
  note f = relax_all_frame [OF r1, of d]
  have s': "s' = s1 \<or> s' = s1\<lparr>states := make_visited cur (states s1)\<rparr>"
    using assms r1 by (auto simp: expand_def split: option.splits if_splits)
  with f show "popped s' = popped s" "pygame_init s' = pygame_init s" "events s' = events s"
    by auto
  from s' f show "destination pf = Some d \<Longrightarrow> cur \<noteq> d \<Longrightarrow> states s' d = states s d"
    by (auto simp: make_apply)
  show "x \<noteq> Some (Inr b)"
    using assms r1 by (auto simp: expand_def split: option.splits if_splits)
  show "x = Some (Inl e) \<Longrightarrow>
           e = KeyError \<or> e = PygameError \<or> (e = AttributeError \<and> alg = AStar \<and> destination pf = None)"
    using assms r1 relax_all_error [of alg vx pf cur "neighbors vx cur" s e s1]
    by (auto simp: expand_def gui_draw_def split: option.splits if_splits)
qed

lemma finish_frame:
  assumes "finish pf d s = Some (x, s')"
  shows "\<exists>st. s' = s\<lparr>states := st\<rparr>" and "x \<noteq> None" and "x \<noteq> Some (Inr False)"
    and "x = Some (Inl e) \<Longrightarrow> e = PygameError \<or> (e = AttributeError \<and> start pf = None)"
  using assms
  by (auto simp: finish_def reconstruct_path_dead split: option.splits if_splits
      dest: reconstruct_path_error)

lemma finish_dest_state:
  assumes "search_inv s" and "finish pf d s = Some (x, s')" and "start pf \<noteq> Some d"
  shows "states s' d = states s d"
proof -
  from search_inv_chain [OF assms(1)] obtain ps where "chain (came_from s) d ps" by blast
  from reconstruct_path_total [OF this, of "pygame_init s" "states s"]
  obtain e st' where r: "reconstruct_path (pygame_init s) (came_from s) d (states s) = Some (e, st')"
    and st': "st' d = states s d" by blast
  from assms(2,3) r st' show ?thesis
    by (cases e; cases "start pf") (auto simp: finish_def make_apply)
qed


lemma iteration_dest_state:
  assumes "search_inv s" and "queue s \<noteq> []" and "iteration alg vx pf s = Some (x, s')"
    and "destination pf = Some d" and "start pf \<noteq> Some d"
  shows "states s' d = states s d"
proof (cases "pygame_init s")
  case False
  with assms(3) show ?thesis unfolding iteration_unfold [OF assms(1,2)] by simp
next
  case True
  have ap: "search_inv (after_pop s)" using assms(1,2) by (rule after_pop_inv)
  show ?thesis
  proof (cases "Some (current_of s) = destination pf")
    case d: True
    with True assms(3) have f: "finish pf (current_of s) (after_pop s) = Some (x, s')"
      unfolding iteration_unfold [OF assms(1,2)] by simp
    from d assms(4) have "current_of s = d" by simp
    with finish_dest_state [OF ap f] assms(5) show ?thesis by (simp add: after_pop_fields)
  next
    case d: False
    with True assms(3) have e: "expand alg vx pf (current_of s) (after_pop s) = (x, s')"
      unfolding iteration_unfold [OF assms(1,2)] by simp
    from d assms(4) have "current_of s \<noteq> d" by simp
    from expand_frame(4) [OF e assms(4) this] show ?thesis by (simp add: after_pop_fields)
  qed
qed

subsection \<open>Passes that raise nothing\<close>

lemma poll_events_env: "env_ok s \<Longrightarrow> env_ok (snd (poll_events s))"
  by (cases "events s") (auto simp: env_ok_def poll_events_def)






subsection \<open>The result of a search\<close>





subsection \<open>A missing endpoint\<close>

lemma dijkstra_without_destination:
  assumes "search_inv s" and "destination pf = None"
  shows "\<exists>r s'. search_loop Dijkstra vx pf s = Some (r, s') \<and> r \<noteq> Inr True \<and> r \<noteq> Inl AttributeError"
proof (rule search_loop_total [OF assms(1), where J = "\<lambda>s. True"])
  fix s s' :: "'a search_state" and r
  assume inv: "search_inv s" and ne: "queue s \<noteq> []"
    and it: "iteration Dijkstra vx pf s = Some (Some r, s')"
  show "r \<noteq> Inr True \<and> r \<noteq> Inl AttributeError"
  proof (cases "pygame_init s")
    case False
    with it show ?thesis unfolding iteration_unfold [OF inv ne] by auto
  next
    case True
    with it assms(2) have e: "expand Dijkstra vx pf (current_of s) (after_pop s) = (Some r, s')"
      unfolding iteration_unfold [OF inv ne] by simp
    from expand_frame(5) [OF e, of True] expand_frame(6) [OF e] show ?thesis
      by (cases r) auto
  qed
qed simp_all

text \<open>
  Claim C6, as the code has it. The pathfinder has no check of its endpoints and no
  error of the kind the claim names. With \<^verbatim>\<open>None\<close> as start or destination,
  \<^verbatim>\<open>a_star_search\<close> raises \<^verbatim>\<open>AttributeError\<close> before its loop, without a pop; with
  \<^verbatim>\<open>None\<close> as start, \<^verbatim>\<open>dijkstra\<close> raises \<^verbatim>\<open>AttributeError\<close> in its first pass; with a
  start and \<^verbatim>\<open>None\<close> as destination, \<^verbatim>\<open>dijkstra\<close> runs its loop to the end and returns,
  never True and never with \<^verbatim>\<open>AttributeError\<close>. (The user interface calls a search only
  when both endpoints are set, \<^verbatim>\<open>gui.py\<close> lines 145 and 155.)
\<close>

theorem missing_endpoint_not_checked:
  "(start pf = None \<longrightarrow> outcome (dijkstra vx pf evs st) = Some (Inl AttributeError))
   \<and> (start pf = None \<or> destination pf = None \<longrightarrow>
        outcome (a_star_search vx pf evs st) = Some (Inl AttributeError)
        \<and> final_popped (a_star_search vx pf evs st) = Some [])
   \<and> (start pf \<noteq> None \<and> destination pf = None \<longrightarrow>
        (\<exists>r s'. dijkstra vx pf evs st = Some (r, s') \<and> r \<noteq> Inr True \<and> r \<noteq> Inl AttributeError))"
proof (intro conjI impI)
  assume "start pf = None"
  then show "outcome (dijkstra vx pf evs st) = Some (Inl AttributeError)"
    by (simp add: dijkstra_def outcome_def)
next
  assume "start pf = None \<or> destination pf = None"
  then show "outcome (a_star_search vx pf evs st) = Some (Inl AttributeError)"
    and "final_popped (a_star_search vx pf evs st) = Some []"
    by (auto simp: a_star_search_def outcome_def final_popped_def split: option.splits)
next
  assume a: "start pf \<noteq> None \<and> destination pf = None"
  then obtain b where b: "start pf = Some b" by auto
  from dijkstra_without_destination [OF dijkstra_init_inv, where pf = pf and vx = vx] a b
  show "\<exists>r s'. dijkstra vx pf evs st = Some (r, s') \<and> r \<noteq> Inr True \<and> r \<noteq> Inl AttributeError"
    by (simp add: dijkstra_def)
qed

theorem missing_endpoint_not_checked_witness:
  "start no_destination_example \<noteq> None \<and> destination no_destination_example = None
   \<and> outcome (a_star_search (grid_vertices 2 fresh) no_destination_example [] fresh)
       = Some (Inl AttributeError)
   \<and> outcome (dijkstra (grid_vertices 2 fresh) no_destination_example [] fresh) \<noteq> Some (Inr True)"
proof -
  have e: "start no_destination_example \<noteq> None \<and> destination no_destination_example = None"
    by (simp add: no_destination_example_def)
  from missing_endpoint_not_checked [of no_destination_example "grid_vertices 2 fresh" "[]" fresh] e
  show ?thesis by (auto simp: outcome_def)
qed

theorem missing_destination_counterexample:
  "outcome (dijkstra (grid_vertices 2 fresh) no_destination_example [] fresh) = Some (Inr False)"
  by code_simp


subsection \<open>A quit event\<close>

text \<open>
  Claim C7 against the code. A \<^verbatim>\<open>QUIT\<close> event at the head of the first pass only calls
  \<^verbatim>\<open>pygame.quit()\<close>; the pass goes on. When the vertex popped is the destination and
  \<^verbatim>\<open>came_from\<close> is empty (start and destination the same vertex), the search returns True.
  Otherwise the vertex is popped and its neighbours are relaxed (here \<open>(1, 0)\<close> and
  \<open>(0, 1)\<close> get their predecessor and the mark Visiting) before the next drawing fails.
\<close>

theorem quit_does_not_stop_the_pass:
  "outcome (dijkstra (grid_vertices 2 fresh) same_example [[QUIT]] fresh) = Some (Inr True)
   \<and> outcome (a_star_search (grid_vertices 2 fresh) same_example [[QUIT]] fresh) = Some (Inr True)
   \<and> final_popped (dijkstra (grid_vertices 2 fresh) maze_example [[QUIT]] fresh) = Some [(0, 0)]
   \<and> final_state (dijkstra (grid_vertices 2 fresh) maze_example [[QUIT]] fresh) (1, 0) = Some Visiting
   \<and> final_state (dijkstra (grid_vertices 2 fresh) maze_example [[QUIT]] fresh) (0, 1) = Some Visiting
   \<and> final_popped (a_star_search (grid_vertices 2 fresh) maze_example [[QUIT]] fresh) = Some [(0, 0)]
   \<and> final_state (a_star_search (grid_vertices 2 fresh) maze_example [[QUIT]] fresh) (1, 0) = Some Visiting"
  by code_simp


subsection \<open>The state of the destination\<close>

lemma search_loop_dest_state:
  assumes "search_inv s" and "destination pf = Some d" and "start pf \<noteq> Some d"
  shows "\<exists>r s'. search_loop alg vx pf s = Some (r, s') \<and> states s' d = states s d"
proof (rule search_loop_total [OF assms(1), where J = "\<lambda>t. states t d = states s d"])
  fix t t' :: "'a search_state"
  assume "search_inv t" "queue t \<noteq> []" "iteration alg vx pf t = Some (None, t')"
    and J: "states t d = states s d"
  from iteration_dest_state [OF this(1,2,3) assms(2,3)] J
  show "states t' d = states s d" by simp
next
  fix t t' :: "'a search_state" and r
  assume "search_inv t" "queue t \<noteq> []" "iteration alg vx pf t = Some (Some r, t')"
    and J: "states t d = states s d"
  from iteration_dest_state [OF this(1,2,3) assms(2,3)] J
  show "states t' d = states s d" by simp
qed simp_all

lemma search_loop_same_endpoints:
  assumes "start pf = Some d" and "destination pf = Some d"
    and "queue s = [(k, c, d)]" and "visited s = {d}" and "came_from s = Map.empty"
    and "pygame_init s"
  shows "\<exists>s'. search_loop alg vx pf s = Some (Inr True, s') \<and> states s' = make_start d (states s)"
proof -
  define s1 where "s1 = snd (poll_events s)"
  have p: "poll_events s = (None, s1)"
    using assms(6) by (simp add: poll_events_def s1_def)
  have f: "queue s1 = [(k, c, d)]" "visited s1 = {d}" "came_from s1 = Map.empty"
    "states s1 = states s"
    using assms(3,4,5) by (simp_all add: s1_def poll_events_fields)
  have g: "queue_get [(k, c, d)] = ((k, c, d), [])"
    by (simp add: queue_get_def)
  define s3 where "s3 = s1\<lparr>queue := [], popped := popped s1 @ [d], visited := {}\<rparr>"
  have it: "iteration alg vx pf s = finish pf d s3"
    by (simp add: iteration_def p f g Let_def assms(2) s3_def)
  have r: "reconstruct_path (pygame_init s3) (came_from s3) d (states s3) = Some (None, states s)"
    by (subst reconstruct_path.simps) (simp add: s3_def f)
  have fin: "finish pf d s3 = Some (Some (Inr True), s3\<lparr>states := make_start d (states s)\<rparr>)"
    by (simp add: finish_def r assms(1))
  have "search_loop alg vx pf s = Some (Inr True, s3\<lparr>states := make_start d (states s)\<rparr>)"
    by (subst search_loop.simps) (simp add: assms(3) it fin)
  then show ?thesis by simp
qed

text \<open>
  Claim C10, as the code has it. When the destination is not also the start vertex, a
  search never writes the state of the destination: no pass of the loop changes it
  (it is not marked Visiting when it is put into the queue, the search returns before the
  mark Visited when it is popped, and the reconstruction does not reach it), so the
  search ends with the destination in the state it had at the call. When start and
  destination are the same vertex, the search returns True from its first pass and has
  marked that vertex Start.
\<close>

theorem destination_state_kept:
  "(destination pf = Some d \<and> start pf \<noteq> Some d \<longrightarrow>
      (\<exists>r s'. dijkstra vx pf evs st = Some (r, s') \<and> states s' d = st d)
      \<and> (\<exists>r s'. a_star_search vx pf evs st = Some (r, s') \<and> states s' d = st d))
   \<and> (destination pf = Some d \<and> start pf \<noteq> Some d \<and> search_inv s \<and> queue s \<noteq> []
        \<and> iteration alg vx pf s = Some (x, s') \<longrightarrow> states s' d = states s d)
   \<and> (destination pf = Some d \<and> start pf = Some d \<longrightarrow>
        (\<exists>s'. dijkstra vx pf evs st = Some (Inr True, s') \<and> states s' = make_start d st)
        \<and> (\<exists>s'. a_star_search vx pf evs st = Some (Inr True, s') \<and> states s' = make_start d st))"
proof (intro conjI impI)
  assume a: "destination pf = Some d \<and> start pf \<noteq> Some d"
  then have d: "destination pf = Some d" and sd: "start pf \<noteq> Some d" by simp_all
  show "\<exists>r s'. dijkstra vx pf evs st = Some (r, s') \<and> states s' d = st d"
  proof (cases "start pf")
    case None
    then show ?thesis by (simp add: dijkstra_def poll_events_fields)
  next
    case (Some b)
    have i: "states (dijkstra_init pf b evs st) = st" by (simp add: dijkstra_init_def)
    from search_loop_dest_state [OF dijkstra_init_inv d sd, where alg = Dijkstra and vx = vx]
    obtain r s' where "search_loop Dijkstra vx pf (dijkstra_init pf b evs st) = Some (r, s')"
      and "states s' d = states (dijkstra_init pf b evs st) d" by blast
    then have "dijkstra vx pf evs st = Some (r, s') \<and> states s' d = st d"
      unfolding i by (simp add: dijkstra_def Some)
    then show ?thesis by blast
  qed
  show "\<exists>r s'. a_star_search vx pf evs st = Some (r, s') \<and> states s' d = st d"
  proof (cases "start pf")
    case None
    then show ?thesis by (simp add: a_star_search_def)
  next
    case (Some b)
    have i: "states (a_star_init vx pf b d evs st) = st" by (simp add: a_star_init_def)
    from search_loop_dest_state [OF a_star_init_inv d sd, where alg = AStar and vx = vx]
    obtain r s' where "search_loop AStar vx pf (a_star_init vx pf b d evs st) = Some (r, s')"
      and "states s' d = states (a_star_init vx pf b d evs st) d" by blast
    then have "a_star_search vx pf evs st = Some (r, s') \<and> states s' d = st d"
      unfolding i by (simp add: a_star_search_def Some d)
    then show ?thesis by blast
  qed
next
  assume "destination pf = Some d \<and> start pf \<noteq> Some d \<and> search_inv s \<and> queue s \<noteq> []
        \<and> iteration alg vx pf s = Some (x, s')"
  then show "states s' d = states s d" by (blast intro: iteration_dest_state)
next
  assume a: "destination pf = Some d \<and> start pf = Some d"
  then have d: "destination pf = Some d" and sd: "start pf = Some d" by simp_all
  have i: "queue (dijkstra_init pf d evs st) = [(0, 0, d)]" "visited (dijkstra_init pf d evs st) = {d}"
    "came_from (dijkstra_init pf d evs st) = Map.empty" "pygame_init (dijkstra_init pf d evs st)"
    "states (dijkstra_init pf d evs st) = st"
    by (simp_all add: dijkstra_init_def)
  from search_loop_same_endpoints [OF sd d i(1,2,3,4), where alg = Dijkstra and vx = vx]
  show "\<exists>s'. dijkstra vx pf evs st = Some (Inr True, s') \<and> states s' = make_start d st"
    unfolding i(5) by (simp add: dijkstra_def sd)
  have j: "queue (a_star_init vx pf d d evs st) = [(0, 0, d)]"
    "visited (a_star_init vx pf d d evs st) = {d}"
    "came_from (a_star_init vx pf d d evs st) = Map.empty"
    "pygame_init (a_star_init vx pf d d evs st)"
    "states (a_star_init vx pf d d evs st) = st"
    by (simp_all add: a_star_init_def)
  from search_loop_same_endpoints [OF sd d j(1,2,3,4), where alg = AStar and vx = vx]
  show "\<exists>s'. a_star_search vx pf evs st = Some (Inr True, s') \<and> states s' = make_start d st"
    unfolding j(5) by (simp add: a_star_search_def sd d)
qed

theorem destination_state_kept_witness:
  "destination maze_example = Some (1, 1) \<and> start maze_example \<noteq> Some (1, 1)
   \<and> final_state (dijkstra (grid_vertices 2 fresh) maze_example [] destination_marked) (1, 1)
       = Some Destination
   \<and> final_state (a_star_search (grid_vertices 2 fresh) maze_example [] destination_marked) (1, 1)
       = Some Destination"
proof -
  have e: "destination maze_example = Some (1, 1) \<and> start maze_example \<noteq> Some (1, 1)"
    by (simp add: maze_example_def)
  have m: "destination_marked (1, 1) = Destination" by (simp add: destination_marked_def)
  note t = destination_state_kept [of maze_example "(1, 1)" "grid_vertices 2 fresh" "[]"
      destination_marked undefined undefined undefined undefined, THEN conjunct1, rule_format, OF e]
  from t obtain r s' where
    "dijkstra (grid_vertices 2 fresh) maze_example [] destination_marked = Some (r, s')"
    "states s' (1, 1) = destination_marked (1, 1)" by blast
  then have 1: "final_state (dijkstra (grid_vertices 2 fresh) maze_example [] destination_marked) (1, 1)
       = Some Destination"
    by (simp add: final_state_def m)
  from t obtain r s' where
    "a_star_search (grid_vertices 2 fresh) maze_example [] destination_marked = Some (r, s')"
    "states s' (1, 1) = destination_marked (1, 1)" by blast
  then have 2: "final_state (a_star_search (grid_vertices 2 fresh) maze_example [] destination_marked) (1, 1)
       = Some Destination"
    by (simp add: final_state_def m)
  from e 1 2 show ?thesis by simp
qed

theorem destination_marked_start_counterexample:
  "same_marked (0, 0) = Destination
   \<and> final_state (dijkstra (grid_vertices 2 fresh) same_example [] same_marked) (0, 0)
       = Some Start"
proof -
  have s: "start same_example = Some (0, 0)" "destination same_example = Some (0, 0)"
    by (simp_all add: same_example_def)
  have i: "queue (dijkstra_init same_example (0, 0) [] same_marked) = [(0, 0, (0, 0))]"
    "visited (dijkstra_init same_example (0, 0) [] same_marked) = {(0, 0)}"
    "came_from (dijkstra_init same_example (0, 0) [] same_marked) = Map.empty"
    "pygame_init (dijkstra_init same_example (0, 0) [] same_marked)"
    "states (dijkstra_init same_example (0, 0) [] same_marked) = same_marked"
    by (simp_all add: dijkstra_init_def)
  from search_loop_same_endpoints [OF s i(1,2,3,4), where alg = Dijkstra and vx = "grid_vertices 2 fresh"]
  obtain s' where "search_loop Dijkstra (grid_vertices 2 fresh) same_example
      (dijkstra_init same_example (0, 0) [] same_marked) = Some (Inr True, s')"
    and "states s' = make_start (0, 0) same_marked"
    unfolding i(5) by blast
  then show ?thesis
    by (simp add: final_state_def dijkstra_def s make_apply same_marked_def)
qed

subsection \<open>The order of the pops does not depend on the arrangement of the queue\<close>

lemma same_entries_refl: "same_entries s s"
  by (simp add: same_entries_def)

lemma same_entries_fields:
  assumes "same_entries s t"
  shows "count t = count s" and "visited t = visited s" and "came_from t = came_from s"
    and "distance t = distance s" and "f_score t = f_score s" and "states t = states s"
    and "pygame_init t = pygame_init s" and "events t = events s" and "popped t = popped s"
    and "mset (queue t) = mset (queue s)"
proof -
  from assms have t: "t = s\<lparr>queue := queue t\<rparr>" and m: "mset (queue t) = mset (queue s)"
    by (simp_all add: same_entries_def)
  show "mset (queue t) = mset (queue s)" by (rule m)
  show "count t = count s" by (subst t) simp
  show "visited t = visited s" by (subst t) simp
  show "came_from t = came_from s" by (subst t) simp
  show "distance t = distance s" by (subst t) simp
  show "f_score t = f_score s" by (subst t) simp
  show "states t = states s" by (subst t) simp
  show "pygame_init t = pygame_init s" by (subst t) simp
  show "events t = events s" by (subst t) simp
  show "popped t = popped s" by (subst t) simp
qed

lemma same_entriesI: "mset q = mset (queue s) \<Longrightarrow> same_entries s (s\<lparr>queue := q\<rparr>)"
  by (simp add: same_entries_def)

lemma relax_queue:
  "relax alg vx pf cur n (s\<lparr>queue := q\<rparr>) =
     (case relax alg vx pf cur n s of
        (r, s') \<Rightarrow> (r, s'\<lparr>queue := q @ drop (length (queue s)) (queue s')\<rparr>))"
  by (simp add: relax_def push_def Let_def split: option.splits algorithm.splits)

lemma relax_queue_prefix:
  assumes "relax alg vx pf cur n s = (r, s')"
  shows "queue s' = queue s @ drop (length (queue s)) (queue s')"
  using assms by (cases rule: relax_effect) (simp_all add: push_fields)

lemma relax_same:
  assumes "same_entries s t" and "relax alg vx pf cur n s = (r, s')"
  shows "\<exists>t'. relax alg vx pf cur n t = (r, t') \<and> same_entries s' t'"
proof -
  from assms(1) have t: "t = s\<lparr>queue := queue t\<rparr>" and m: "mset (queue t) = mset (queue s)"
    by (simp_all add: same_entries_def)
  let ?x = "drop (length (queue s)) (queue s')"
  have "relax alg vx pf cur n (s\<lparr>queue := queue t\<rparr>) = (r, s'\<lparr>queue := queue t @ ?x\<rparr>)"
    by (simp add: relax_queue assms(2))
  with t have r: "relax alg vx pf cur n t = (r, s'\<lparr>queue := queue t @ ?x\<rparr>)" by simp
  have "mset (queue t @ ?x) = mset (queue s @ ?x)" using m by simp
  also have "queue s @ ?x = queue s'" using relax_queue_prefix [OF assms(2)] by simp
  finally have "same_entries s' (s'\<lparr>queue := queue t @ ?x\<rparr>)"
    by (rule same_entriesI)
  with r show ?thesis by blast
qed

lemma relax_all_same:
  "same_entries s t \<Longrightarrow> relax_all alg vx pf cur ns s = (r, s') \<Longrightarrow>
   \<exists>t'. relax_all alg vx pf cur ns t = (r, t') \<and> same_entries s' t'"
proof (induction ns arbitrary: s t)
  case Nil
  then show ?case by simp
next
  case (Cons n ns)
  obtain r1 s1 where r1: "relax alg vx pf cur n s = (r1, s1)"
    by (cases "relax alg vx pf cur n s")
  from relax_same [OF Cons.prems(1) r1]
  obtain t1 where t1: "relax alg vx pf cur n t = (r1, t1)" and e: "same_entries s1 t1" by blast
  show ?case
  proof (cases r1)
    case None
    with Cons.prems(2) r1 have "relax_all alg vx pf cur ns s1 = (r, s')" by simp
    from Cons.IH [OF e this] None t1 show ?thesis by simp
  next
    case (Some x)
    with Cons.prems(2) r1 have "r = Some x" "s' = s1" by simp_all
    with Some t1 e show ?thesis by simp
  qed
qed

lemma expand_same:
  assumes "same_entries s t" and "expand alg vx pf cur s = (x, s')"
  shows "\<exists>t'. expand alg vx pf cur t = (x, t') \<and> same_entries s' t'"
proof -
  obtain r1 s1 where r1: "relax_all alg vx pf cur (neighbors vx cur) s = (r1, s1)"
    by (cases "relax_all alg vx pf cur (neighbors vx cur) s")
  from relax_all_same [OF assms(1) r1]
  obtain t1 where t1: "relax_all alg vx pf cur (neighbors vx cur) t = (r1, t1)"
    and e: "same_entries s1 t1" by blast
  note f = same_entries_fields [OF e]
  have e': "same_entries (s1\<lparr>states := st\<rparr>) (t1\<lparr>states := st\<rparr>)" for st
  proof -
    from e have "t1 = s1\<lparr>queue := queue t1\<rparr>" by (simp add: same_entries_def)
    then have "t1\<lparr>states := st\<rparr> = s1\<lparr>queue := queue t1\<rparr>\<lparr>states := st\<rparr>" by simp
    then have "t1\<lparr>states := st\<rparr> = s1\<lparr>states := st\<rparr>\<lparr>queue := queue t1\<rparr>" by simp
    moreover have "same_entries (s1\<lparr>states := st\<rparr>) (s1\<lparr>states := st\<rparr>\<lparr>queue := queue t1\<rparr>)"
      by (rule same_entriesI) (simp add: f(10))
    ultimately show ?thesis by simp
  qed
  show ?thesis
  proof (cases r1)
    case (Some err)
    with assms(2) r1 t1 e show ?thesis by (simp add: expand_def)
  next
    case None
    show ?thesis
    proof (cases "pygame_init s1")
      case False
      with None assms(2) r1 t1 e f(7) show ?thesis by (simp add: expand_def gui_draw_def)
    next
      case True
      with None assms(2) r1 t1 e e' f(6,7) show ?thesis
        by (auto simp: expand_def gui_draw_def split: if_splits)
    qed
  qed
qed

lemma finish_queue:
  "finish pf d (s\<lparr>queue := q\<rparr>) = map_option (\<lambda>(x, s'). (x, s'\<lparr>queue := q\<rparr>)) (finish pf d s)"
  by (simp add: finish_def split: option.splits)

lemma finish_same:
  assumes "same_entries s t" and "finish pf d s = Some (x, s')"
  shows "\<exists>t'. finish pf d t = Some (x, t') \<and> same_entries s' t'"
proof -
  from assms(1) have t: "t = s\<lparr>queue := queue t\<rparr>" and m: "mset (queue t) = mset (queue s)"
    by (simp_all add: same_entries_def)
  from finish_frame(1) [OF assms(2)] have q: "queue s' = queue s" by auto
  have "finish pf d (s\<lparr>queue := queue t\<rparr>) = Some (x, s'\<lparr>queue := queue t\<rparr>)"
    by (simp add: finish_queue assms(2))
  with t have "finish pf d t = Some (x, s'\<lparr>queue := queue t\<rparr>)" by simp
  moreover have "same_entries s' (s'\<lparr>queue := queue t\<rparr>)"
    by (rule same_entriesI) (simp add: m q)
  ultimately show ?thesis by blast
qed

lemma same_entries_inv:
  assumes "same_entries s t" and "search_inv s"
  shows "search_inv t"
proof -
  note f = same_entries_fields [OF assms(1)]
  have v: "mset (vertices_of (queue t)) = mset (vertices_of (queue s))"
    unfolding vertices_of_def using f(10) by (metis mset_map)
  have c: "mset (counts_of (queue t)) = mset (counts_of (queue s))"
    unfolding counts_of_def using f(10) by (metis mset_map)
  have "set (vertices_of (queue t)) = set (vertices_of (queue s))"
    using v by (metis set_mset_mset)
  moreover have "distinct (vertices_of (queue t)) = distinct (vertices_of (queue s))"
    using v by (metis mset_eq_imp_distinct_iff)
  moreover have "set (counts_of (queue t)) = set (counts_of (queue s))"
    using c by (metis set_mset_mset)
  moreover have "distinct (counts_of (queue t)) = distinct (counts_of (queue s))"
    using c by (metis mset_eq_imp_distinct_iff)
  ultimately show ?thesis
    using assms(2) by (simp add: search_inv_def counts_ok_def f)
qed

lemma after_pop_queue:
  assumes "fst (queue_get q) = fst (queue_get (queue s))"
  shows "after_pop (s\<lparr>queue := q\<rparr>)
    = (after_pop s)\<lparr>queue := remove1 (fst (queue_get (queue s))) q\<rparr>"
proof -
  have p: "snd (poll_events (s\<lparr>queue := q\<rparr>)) = (snd (poll_events s))\<lparr>queue := q\<rparr>"
    by (simp add: poll_events_def)
  show ?thesis
    by (simp add: after_pop_def p queue_get_rest current_of_def assms)
qed

lemma after_pop_same:
  assumes "same_entries s t" and "search_inv s" and "queue s \<noteq> []"
  shows "current_of t = current_of s" and "same_entries (after_pop s) (after_pop t)"
proof -
  from assms(1) have t: "t = s\<lparr>queue := queue t\<rparr>" and m: "mset (queue t) = mset (queue s)"
    by (simp_all add: same_entries_def)
  have d: "distinct (counts_of (queue s))"
    using assms(2) by (simp add: search_inv_def counts_ok_def)
  have g: "fst (queue_get (queue t)) = fst (queue_get (queue s))"
    using m [symmetric] d assms(3) by (rule queue_get_mset)
  then show c: "current_of t = current_of s" by (simp add: current_of_def)
  have "after_pop (s\<lparr>queue := queue t\<rparr>)
      = (after_pop s)\<lparr>queue := remove1 (fst (queue_get (queue s))) (queue t)\<rparr>"
    by (rule after_pop_queue) (rule g)
  with t have "after_pop t = (after_pop s)\<lparr>queue := remove1 (fst (queue_get (queue s))) (queue t)\<rparr>"
    by simp
  moreover have "same_entries (after_pop s)
      ((after_pop s)\<lparr>queue := remove1 (fst (queue_get (queue s))) (queue t)\<rparr>)"
    by (rule same_entriesI) (simp add: m after_pop_fields)
  ultimately show "same_entries (after_pop s) (after_pop t)" by simp
qed

lemma iteration_same:
  assumes "same_entries s t" and "search_inv s" and "queue s \<noteq> []"
    and "iteration alg vx pf s = Some (x, s')"
  shows "\<exists>t'. iteration alg vx pf t = Some (x, t') \<and> same_entries s' t'"
proof -
  note f = same_entries_fields [OF assms(1)]
  have it: "search_inv t" using assms(1,2) by (rule same_entries_inv)
  have nt: "queue t \<noteq> []" using f(10) assms(3) by (metis mset_zero_iff)
  note ap = after_pop_same [OF assms(1,2,3)]
  show ?thesis
  proof (cases "pygame_init s")
    case False
    with assms(4) have "x = Some (Inl PygameError)" "s' = s"
      unfolding iteration_unfold [OF assms(2,3)] by simp_all
    with False f(7) assms(1) show ?thesis
      unfolding iteration_unfold [OF it nt] by simp
  next
    case True
    show ?thesis
    proof (cases "Some (current_of s) = destination pf")
      case d: True
      with True assms(4) have "finish pf (current_of s) (after_pop s) = Some (x, s')"
        unfolding iteration_unfold [OF assms(2,3)] by simp
      from finish_same [OF ap(2) this] d True f(7) ap(1) show ?thesis
        unfolding iteration_unfold [OF it nt] by simp
    next
      case d: False
      with True assms(4) have "expand alg vx pf (current_of s) (after_pop s) = (x, s')"
        unfolding iteration_unfold [OF assms(2,3)] by simp
      from expand_same [OF ap(2) this] d True f(7) ap(1) show ?thesis
        unfolding iteration_unfold [OF it nt] by simp
    qed
  qed
qed

lemma search_loop_same:
  assumes "search_inv s" and "same_entries s t"
  shows "\<exists>r s' t'. search_loop alg vx pf s = Some (r, s') \<and> search_loop alg vx pf t = Some (r, t')
           \<and> same_entries s' t'"
proof -
  have "\<forall>t. same_entries s t \<longrightarrow>
      (\<exists>r s' t'. search_loop alg vx pf s = Some (r, s') \<and> search_loop alg vx pf t = Some (r, t')
           \<and> same_entries s' t')"
  proof (rule search_inv_induct [OF assms(1), where alg = alg and vx = vx and pf = pf])
    fix s :: "'a search_state"
    assume inv: "search_inv s"
      and IH: "\<And>s'. queue s \<noteq> [] \<Longrightarrow> iteration alg vx pf s = Some (None, s') \<Longrightarrow>
        \<forall>t. same_entries s' t \<longrightarrow>
          (\<exists>r s'' t'. search_loop alg vx pf s' = Some (r, s'') \<and> search_loop alg vx pf t = Some (r, t')
             \<and> same_entries s'' t')"
    show "\<forall>t. same_entries s t \<longrightarrow>
      (\<exists>r s' t'. search_loop alg vx pf s = Some (r, s') \<and> search_loop alg vx pf t = Some (r, t')
           \<and> same_entries s' t')"
    proof (intro allI impI)
      fix t
      assume e: "same_entries s t"
      note f = same_entries_fields [OF e]
      show "\<exists>r s' t'. search_loop alg vx pf s = Some (r, s') \<and> search_loop alg vx pf t = Some (r, t')
           \<and> same_entries s' t'"
      proof (cases "queue s = []")
        case True
        with f(10) have "queue t = []" by simp
        with True have "search_loop alg vx pf s = Some (Inr False, s)"
          "search_loop alg vx pf t = Some (Inr False, t)"
          by (subst search_loop.simps, simp)+
        with e show ?thesis by blast
      next
        case False
        with f(10) have nt: "queue t \<noteq> []" by (metis mset_zero_iff)
        from iteration_total [OF inv False, of alg vx pf]
        obtain x s1 where i1: "iteration alg vx pf s = Some (x, s1)" by blast
        from iteration_same [OF e inv False i1]
        obtain t1 where i2: "iteration alg vx pf t = Some (x, t1)" and e1: "same_entries s1 t1"
          by blast
        show ?thesis
        proof (cases x)
          case None
          have "search_loop alg vx pf s = search_loop alg vx pf s1"
            by (subst search_loop.simps) (simp add: False i1 None)
          moreover have "search_loop alg vx pf t = search_loop alg vx pf t1"
            by (subst search_loop.simps) (simp add: nt i2 None)
          ultimately show ?thesis
            using IH [OF False, of s1] i1 None e1 by simp
        next
          case (Some r)
          have "search_loop alg vx pf s = Some (r, s1)"
            by (subst search_loop.simps) (simp add: False i1 Some)
          moreover have "search_loop alg vx pf t = Some (r, t1)"
            by (subst search_loop.simps) (simp add: nt i2 Some)
          ultimately show ?thesis using e1 by blast
        qed
      qed
    qed
  qed
  with assms(2) show ?thesis by blast
qed

lemma queue_get_strict:
  assumes "search_inv s" and "e \<in> set (queue s)" and "e \<noteq> fst (queue_get (queue s))"
  shows "fst (fst (queue_get (queue s))) < fst e
    \<or> (fst (fst (queue_get (queue s))) = fst e
        \<and> fst (snd (fst (queue_get (queue s)))) < fst (snd e))"
proof -
  let ?m = "fst (queue_get (queue s))"
  from assms(2) have ne: "queue s \<noteq> []" by auto
  have m: "?m \<in> set (queue s)" using ne by (rule queue_get_mem)
  have le: "entry_le ?m e" using ne assms(2) by (rule queue_get_least)
  have d: "distinct (counts_of (queue s))"
    using assms(1) by (simp add: search_inv_def counts_ok_def)
  have "fst (snd ?m) \<noteq> fst (snd e)"
    using distinct_counts_eq [OF d m assms(2)] assms(3) by blast
  with le show ?thesis by (cases ?m; cases e) auto
qed

lemma relax_counter:
  assumes "search_inv s" and "relax alg vx pf cur n s = (r, s')" and "queue s' \<noteq> queue s"
  shows "\<exists>k. queue s' = queue s @ [(k, Suc (count s), n)]" and "count s' = Suc (count s)"
    and "\<forall>c \<in> set (counts_of (queue s)). c < Suc (count s)"
proof -
  from assms(2,3) show "\<exists>k. queue s' = queue s @ [(k, Suc (count s), n)]"
    by (cases rule: relax_effect) (simp_all add: push_fields)
  from assms(2,3) show "count s' = Suc (count s)"
    by (cases rule: relax_effect) (simp_all add: push_fields)
  from assms(1) show "\<forall>c \<in> set (counts_of (queue s)). c < Suc (count s)"
    by (auto simp: search_inv_def counts_ok_def less_Suc_eq_le)
qed

text \<open>
  Claim C9. A search is a function of the grid, the neighbour lists (walls and neighbour
  order), the start, the destination and the events: the one thing a run does not fix, the
  arrangement of the entries inside the priority queue, has no influence. Two runs from
  states that hold the same entries in different arrangements return the same result and
  end in states with the same pops in the same order, the same \<open>came_from\<close> and the same
  vertex states (the path). The reason is the tie-break: every other entry of the queue
  has a greater key than the entry popped, or the same key and a greater count, and each
  insertion takes the next value of the counter, greater than every count in the queue.
  Both searches start in a state to which this applies.
\<close>

theorem search_deterministic:
  "(search_inv s \<and> same_entries s t \<longrightarrow>
      (\<exists>r s' t'. search_loop alg vx pf s = Some (r, s') \<and> search_loop alg vx pf t = Some (r, t')
         \<and> popped t' = popped s' \<and> came_from t' = came_from s' \<and> states t' = states s'
         \<and> same_entries s' t'))
   \<and> (search_inv s \<and> e \<in> set (queue s) \<and> e \<noteq> fst (queue_get (queue s)) \<longrightarrow>
        fst (queue_get (queue s)) \<in> set (queue s)
        \<and> (fst (fst (queue_get (queue s))) < fst e
            \<or> (fst (fst (queue_get (queue s))) = fst e
                \<and> fst (snd (fst (queue_get (queue s)))) < fst (snd e))))
   \<and> (search_inv s \<and> relax alg vx pf cur n s = (x, u) \<and> queue u \<noteq> queue s \<longrightarrow>
        (\<exists>k. queue u = queue s @ [(k, Suc (count s), n)]) \<and> count u = Suc (count s)
        \<and> (\<forall>c \<in> set (counts_of (queue s)). c < Suc (count s)))
   \<and> search_inv (dijkstra_init pf b evs st) \<and> search_inv (a_star_init vx pf b d evs st)"
proof (intro conjI impI)
  assume a: "search_inv s \<and> same_entries s t"
  from search_loop_same [of s t alg vx pf] a
  obtain r s' t' where l: "search_loop alg vx pf s = Some (r, s')"
    "search_loop alg vx pf t = Some (r, t')" and e: "same_entries s' t'" by blast
  from l e same_entries_fields(3,6,9) [OF e]
  show "\<exists>r s' t'. search_loop alg vx pf s = Some (r, s') \<and> search_loop alg vx pf t = Some (r, t')
         \<and> popped t' = popped s' \<and> came_from t' = came_from s' \<and> states t' = states s'
         \<and> same_entries s' t'" by blast
next
  assume a: "search_inv s \<and> e \<in> set (queue s) \<and> e \<noteq> fst (queue_get (queue s))"
  then have "queue s \<noteq> []" by auto
  then show "fst (queue_get (queue s)) \<in> set (queue s)" by (rule queue_get_mem)
  from a have 1: "search_inv s" and 2: "e \<in> set (queue s)"
    and 3: "e \<noteq> fst (queue_get (queue s))" by simp_all
  show "fst (fst (queue_get (queue s))) < fst e
            \<or> (fst (fst (queue_get (queue s))) = fst e
                \<and> fst (snd (fst (queue_get (queue s)))) < fst (snd e))"
    using 1 2 3 by (rule queue_get_strict)
next
  assume a: "search_inv s \<and> relax alg vx pf cur n s = (x, u) \<and> queue u \<noteq> queue s"
  then have 1: "search_inv s" and 2: "relax alg vx pf cur n s = (x, u)" and 3: "queue u \<noteq> queue s"
    by simp_all
  show "\<exists>k. queue u = queue s @ [(k, Suc (count s), n)]" using 1 2 3 by (rule relax_counter(1))
  show "count u = Suc (count s)" using 1 2 3 by (rule relax_counter(2))
  show "\<forall>c \<in> set (counts_of (queue s)). c < Suc (count s)" using 1 2 3 by (rule relax_counter(3))
next
  show "search_inv (dijkstra_init pf b evs st)" by (rule dijkstra_init_inv)
  show "search_inv (a_star_init vx pf b d evs st)" by (rule a_star_init_inv)
qed

lemma two_entries_inv: "search_inv two_entries"
proof -
  have "finite (dom (distance two_entries))" by (simp add: two_entries_def)
  moreover have "\<forall>v p. came_from two_entries v = Some p \<longrightarrow>
      (\<exists>a b. distance two_entries p = Some (enat a) \<and> distance two_entries v = Some (enat b) \<and> a < b)"
    by (auto simp: two_entries_def zero_enat_def one_enat_def split: if_splits)
  moreover have "\<forall>v \<in> visited two_entries. \<exists>a. distance two_entries v = Some (enat a)"
    by (auto simp: two_entries_def zero_enat_def one_enat_def)
  ultimately show ?thesis
    by (simp add: search_inv_def counts_ok_def vertices_of_def counts_of_def)
      (auto simp: two_entries_def)
qed

theorem search_deterministic_witness:
  "search_inv two_entries \<and> same_entries two_entries two_entries_swapped
   \<and> final_popped (search_loop Dijkstra (grid_vertices 2 fresh) maze_example two_entries_swapped)
       = final_popped (search_loop Dijkstra (grid_vertices 2 fresh) maze_example two_entries)
   \<and> outcome (search_loop Dijkstra (grid_vertices 2 fresh) maze_example two_entries_swapped)
       = outcome (search_loop Dijkstra (grid_vertices 2 fresh) maze_example two_entries)
   \<and> final_popped (search_loop Dijkstra (grid_vertices 2 fresh) maze_example two_entries)
       = Some [(0, 0), (1, 0), (0, 1), (1, 1)]"
proof -
  have e: "same_entries two_entries two_entries_swapped"
    by (simp add: same_entries_def two_entries_swapped_def two_entries_def)
  have p: "final_popped (search_loop Dijkstra (grid_vertices 2 fresh) maze_example two_entries)
       = Some [(0, 0), (1, 0), (0, 1), (1, 1)]"
    by code_simp
  from search_deterministic [of two_entries two_entries_swapped Dijkstra "grid_vertices 2 fresh"
      maze_example undefined undefined undefined undefined undefined undefined undefined undefined
      undefined, THEN conjunct1, rule_format, OF conjI [OF two_entries_inv e]]
  obtain r s' t' where
    "search_loop Dijkstra (grid_vertices 2 fresh) maze_example two_entries = Some (r, s')"
    "search_loop Dijkstra (grid_vertices 2 fresh) maze_example two_entries_swapped = Some (r, t')"
    "popped t' = popped s'" by blast
  then have "final_popped (search_loop Dijkstra (grid_vertices 2 fresh) maze_example two_entries_swapped)
       = final_popped (search_loop Dijkstra (grid_vertices 2 fresh) maze_example two_entries)"
    "outcome (search_loop Dijkstra (grid_vertices 2 fresh) maze_example two_entries_swapped)
       = outcome (search_loop Dijkstra (grid_vertices 2 fresh) maze_example two_entries)"
    by (simp_all add: final_popped_def outcome_def)
  with two_entries_inv e p show ?thesis by simp
qed

subsection \<open>Searching in layers: the vertex popped\<close>

lemma layeredD:
  assumes "layered alg vx pf R lam b t"
  shows "start pf = Some b" and "destination pf = Some t" and "b \<in> R" and "t \<in> R"
    and "R \<subseteq> grid_set pf" and "lam b = 0"
    and "\<And>u w. u \<in> grid_set pf \<Longrightarrow> w \<in> set (neighbors vx u) \<Longrightarrow> w \<in> grid_set pf"
    and "\<And>u w. u \<in> grid_set pf \<Longrightarrow> w \<in> set (neighbors vx u) \<Longrightarrow> lam w \<le> lam u + 1"
    and "\<And>u w. u \<in> R \<Longrightarrow> w \<in> set (neighbors vx u) \<Longrightarrow> w \<in> R \<Longrightarrow>
           lam w = lam u + 1 \<or> lam u = lam w + 1"
    and "\<And>v. v \<in> R \<Longrightarrow> v \<noteq> b \<Longrightarrow> \<exists>u \<in> R. v \<in> set (neighbors vx u) \<and> lam v = lam u + 1"
    and "\<And>u u'. u \<in> R \<Longrightarrow> u' \<in> R \<Longrightarrow> lam u \<le> lam u' \<Longrightarrow>
           key_of alg vx pf lam u \<le> key_of alg vx pf lam u'"
    and "\<And>v u. v \<in> grid_set pf \<Longrightarrow> v \<notin> R \<Longrightarrow> u \<in> R \<Longrightarrow>
           key_of alg vx pf lam u < key_of alg vx pf lam v"
  using assms unfolding layered_def by (blast, blast, blast, blast, blast, blast, blast, blast, blast, blast, blast, blast)

lemma visited_queue:
  assumes "search_inv s"
  shows "v \<in> visited s \<longleftrightarrow> (\<exists>e \<in> set (queue s). snd (snd e) = v)"
  using assms by (auto simp: search_inv_def vertices_of_def)

lemma visited_disc: "search_inv s \<Longrightarrow> v \<in> visited s \<Longrightarrow> disc s v"
  by (auto simp: search_inv_def disc_def)

text \<open>Below the lowest layer in the queue every vertex of the region is closed.\<close>

lemma below_queue_closed:
  assumes L: "layered alg vx pf R lam b t" and inv: "search_inv s"
    and tree: "tree_ok vx R lam b s" and nb: "nbrs_ok vx R None s"
    and v: "v \<in> R" and low: "\<And>e. e \<in> set (queue s) \<Longrightarrow> snd (snd e) \<in> R \<Longrightarrow> lam v < lam (snd (snd e))"
  shows "closed s v"
  using v low
proof (induction "lam v" arbitrary: v rule: less_induct)
  case less
  have nq: "v \<notin> visited s"
  proof
    assume "v \<in> visited s"
    then obtain e where "e \<in> set (queue s)" "snd (snd e) = v"
      using visited_queue [OF inv] by blast
    with less.prems show False by blast
  qed
  show ?case
  proof (cases "v = b")
    case True
    from tree have "distance s b = Some 0" by (simp add: tree_ok_def)
    then have "disc s b" by (simp add: disc_def zero_enat_def)
    with True nq show ?thesis by (simp add: closed_def)
  next
    case False
    from layeredD(10) [OF L less.prems(1) False]
    obtain u where u: "u \<in> R" "v \<in> set (neighbors vx u)" "lam v = lam u + 1" by blast
    have "closed s u"
    proof (rule less.hyps)
      show "lam u < lam v" using u(3) by simp
      show "u \<in> R" by (rule u(1))
      fix e assume "e \<in> set (queue s)" "snd (snd e) \<in> R"
      from less.prems(2) [OF this] u(3) show "lam u < lam (snd (snd e))" by simp
    qed
    with nb u less.prems(1) have "disc s v" by (auto simp: nbrs_ok_def)
    with nq show ?thesis by (simp add: closed_def)
  qed
qed

lemma region_entry_exists:
  assumes L: "layered alg vx pf R lam b t" and inv: "search_inv s"
    and B: "bfs_inv alg vx pf R lam b t s"
  shows "\<exists>e \<in> set (queue s). snd (snd e) \<in> R"
proof (rule ccontr)
  assume n: "\<not> (\<exists>e \<in> set (queue s). snd (snd e) \<in> R)"
  from B have tree: "tree_ok vx R lam b s" and nb: "nbrs_ok vx R None s"
    and topen: "disc s t \<longrightarrow> t \<in> visited s"
    by (simp_all add: bfs_inv_def bfs_core_def)
  have "closed s t"
    by (rule below_queue_closed [OF L inv tree nb layeredD(4) [OF L]]) (use n in blast)
  with topen show False by (simp add: closed_def)
qed

text \<open>The entry popped belongs to the region and no entry of the region has a lower layer.\<close>

lemma popped_lowest:
  assumes L: "layered alg vx pf R lam b t" and inv: "search_inv s"
    and B: "bfs_inv alg vx pf R lam b t s"
  shows "queue s \<noteq> []" and "current_of s \<in> R"
    and "\<And>e. e \<in> set (queue s) \<Longrightarrow> snd (snd e) \<in> R \<Longrightarrow> lam (current_of s) \<le> lam (snd (snd e))"
proof -
  from region_entry_exists [OF L inv B]
  obtain e0 where e0: "e0 \<in> set (queue s)" "snd (snd e0) \<in> R" by blast
  then show ne: "queue s \<noteq> []" by auto
  let ?m = "fst (queue_get (queue s))"
  have m: "?m \<in> set (queue s)" using ne by (rule queue_get_mem)
  have cur: "current_of s = snd (snd ?m)" by (simp add: current_of_def)
  from B have keys: "keys_ok alg vx pf R lam b s" and srt: "sorted_ok R lam s"
    by (simp_all add: bfs_inv_def bfs_core_def)
  have dc: "distinct (counts_of (queue s))"
    using inv by (simp add: search_inv_def counts_ok_def)
  show inR: "current_of s \<in> R"
  proof (rule ccontr)
    assume nR: "current_of s \<notin> R"
    from keys m nR cur have g: "current_of s \<in> grid_set pf"
      and k: "enat (key_of alg vx pf lam (current_of s)) \<le> fst ?m"
      by (auto simp: keys_ok_def)
    from keys e0 have k0: "fst e0 \<le> enat (key_of alg vx pf lam (snd (snd e0)))"
      by (auto simp: keys_ok_def)
    from layeredD(12) [OF L g nR e0(2)]
    have "enat (key_of alg vx pf lam (snd (snd e0))) < enat (key_of alg vx pf lam (current_of s))"
      by simp
    with k k0 have "fst e0 < fst ?m" by (meson le_less_trans less_le_trans)
    moreover have "entry_le ?m e0" using ne e0(1) by (rule queue_get_least)
    ultimately show False by (cases ?m; cases e0) auto
  qed
  fix e assume e: "e \<in> set (queue s)" "snd (snd e) \<in> R"
  show "lam (current_of s) \<le> lam (snd (snd e))"
  proof (rule ccontr)
    assume "\<not> lam (current_of s) \<le> lam (snd (snd e))"
    then have lt: "lam (snd (snd e)) < lam (current_of s)" by simp
    from lt layeredD(6) [OF L] have "current_of s \<noteq> b" by auto
    with keys m inR cur have km: "fst ?m = enat (key_of alg vx pf lam (current_of s))"
      by (auto simp: keys_ok_def)
    from keys e have ke: "fst e \<le> enat (key_of alg vx pf lam (snd (snd e)))"
      by (auto simp: keys_ok_def)
    from layeredD(11) [OF L e(2) inR] lt
    have "enat (key_of alg vx pf lam (snd (snd e))) \<le> enat (key_of alg vx pf lam (current_of s))"
      by simp
    with ke have "fst e \<le> fst ?m" unfolding km by (rule order_trans)
    moreover have le: "entry_le ?m e" using ne e(1) by (rule queue_get_least)
    ultimately have c: "fst (snd ?m) \<le> fst (snd e)" by (cases ?m; cases e) auto
    have "e \<noteq> ?m" using lt cur by auto
    with distinct_counts_eq [OF dc m e(1)] have "fst (snd ?m) \<noteq> fst (snd e)" by blast
    with c have "fst (snd ?m) < fst (snd e)" by simp
    with srt m e inR cur have "lam (current_of s) \<le> lam (snd (snd e))"
      unfolding sorted_ok_def by auto
    with lt show False by simp
  qed
qed

subsection \<open>Searching in layers: popping and relaxing\<close>

lemma disc_cong: "distance s' v = distance s v \<Longrightarrow> disc s' v = disc s v"
  by (simp add: disc_def)

lemma keys_ok_subset:
  "keys_ok alg vx pf R lam b s \<Longrightarrow> set (queue s') \<subseteq> set (queue s) \<Longrightarrow> keys_ok alg vx pf R lam b s'"
  unfolding keys_ok_def by blast

lemma sorted_ok_subset:
  "sorted_ok R lam s \<Longrightarrow> set (queue s') \<subseteq> set (queue s) \<Longrightarrow> sorted_ok R lam s'"
  unfolding sorted_ok_def by blast

lemma bfs_coreD:
  assumes "bfs_core alg vx pf R lam b t s"
  shows "env_ok s" and "dist_ok pf R lam s" and "keys_ok alg vx pf R lam b s"
    and "sorted_ok R lam s" and "tree_ok vx R lam b s" and "disc s t \<longrightarrow> t \<in> visited s"
  using assms by (simp_all add: bfs_core_def)

lemma bfs_invD:
  assumes "bfs_inv alg vx pf R lam b t s"
  shows "bfs_core alg vx pf R lam b t s" and "nbrs_ok vx R None s"
    and "\<And>e e'. e \<in> set (queue s) \<Longrightarrow> e' \<in> set (queue s) \<Longrightarrow>
        snd (snd e) \<in> R \<Longrightarrow> snd (snd e') \<in> R \<Longrightarrow> lam (snd (snd e')) \<le> lam (snd (snd e)) + 1"
proof -
  from assms show "bfs_core alg vx pf R lam b t s" and "nbrs_ok vx R None s"
    by (simp_all add: bfs_inv_def)
  from assms have a: "\<forall>e \<in> set (queue s). \<forall>e' \<in> set (queue s).
           snd (snd e) \<in> R \<and> snd (snd e') \<in> R \<longrightarrow> lam (snd (snd e')) \<le> lam (snd (snd e)) + 1"
    by (simp add: bfs_inv_def)
  fix e e' assume "e \<in> set (queue s)" "e' \<in> set (queue s)" "snd (snd e) \<in> R" "snd (snd e') \<in> R"
  with a show "lam (snd (snd e')) \<le> lam (snd (snd e)) + 1" by blast
qed

lemma bfs_midD:
  assumes "bfs_mid alg vx pf R lam b t u s"
  shows "bfs_core alg vx pf R lam b t s" and "u \<in> R"
    and "distance s u = Some (enat (lam u))" and "u \<notin> visited s"
    and "nbrs_ok vx R (Some u) s"
    and "\<And>e. e \<in> set (queue s) \<Longrightarrow> snd (snd e) \<in> R \<Longrightarrow>
        lam u \<le> lam (snd (snd e)) \<and> lam (snd (snd e)) \<le> lam u + 1"
    and "\<And>x. x \<in> R \<Longrightarrow> lam x < lam u \<Longrightarrow> disc s x"
proof -
  from assms show "bfs_core alg vx pf R lam b t s" and "u \<in> R"
    and "distance s u = Some (enat (lam u))" and "u \<notin> visited s"
    and "nbrs_ok vx R (Some u) s"
    by (simp_all add: bfs_mid_def)
  from assms have a: "\<forall>e \<in> set (queue s). snd (snd e) \<in> R \<longrightarrow>
            lam u \<le> lam (snd (snd e)) \<and> lam (snd (snd e)) \<le> lam u + 1"
    and c: "\<forall>w \<in> R. lam w < lam u \<longrightarrow> disc s w"
    by (simp_all add: bfs_mid_def)
  show "\<And>e. e \<in> set (queue s) \<Longrightarrow> snd (snd e) \<in> R \<Longrightarrow>
        lam u \<le> lam (snd (snd e)) \<and> lam (snd (snd e)) \<le> lam u + 1"
    using a by blast
  show "\<And>x. x \<in> R \<Longrightarrow> lam x < lam u \<Longrightarrow> disc s x"
    using c by blast
qed

lemma pop_bfs_mid:
  assumes L: "layered alg vx pf R lam b t" and inv: "search_inv s"
    and B: "bfs_inv alg vx pf R lam b t s" and nt: "current_of s \<noteq> t"
  shows "bfs_mid alg vx pf R lam b t (current_of s) (after_pop s)"
proof -
  let ?u = "current_of s" and ?s = "after_pop s"
  note low = popped_lowest [OF L inv B]
  note core = bfs_invD(1) [OF B] and nb = bfs_invD(2) [OF B] and span = bfs_invD(3) [OF B]
  note env = bfs_coreD(1) [OF core] and dist = bfs_coreD(2) [OF core]
    and keys = bfs_coreD(3) [OF core] and srt = bfs_coreD(4) [OF core]
    and tree = bfs_coreD(5) [OF core] and topen = bfs_coreD(6) [OF core]
  have sub: "set (queue ?s) \<subseteq> set (queue s)"
    by (simp add: after_pop_fields set_remove1_subset)
  have d: "disc ?s v = disc s v" for v by (simp add: disc_def after_pop_fields)
  have m: "fst (queue_get (queue s)) \<in> set (queue s)" using low(1) by (rule queue_get_mem)
  have uv: "?u \<in> visited s" using inv low(1) by (rule current_of_visited)
  have env': "env_ok ?s"
    using poll_events_env [OF env] by (simp add: env_ok_def after_pop_fields)
  have topen': "disc ?s t \<longrightarrow> t \<in> visited ?s"
    using topen nt by (simp add: d after_pop_fields)
  have dist': "dist_ok pf R lam ?s"
    using dist by (simp add: dist_ok_def after_pop_fields)
  have tree': "tree_ok vx R lam b ?s"
    using tree by (simp add: tree_ok_def disc_def after_pop_fields)
  have keys': "keys_ok alg vx pf R lam b ?s" using keys sub by (rule keys_ok_subset)
  have srt': "sorted_ok R lam ?s" using srt sub by (rule sorted_ok_subset)
  have core': "bfs_core alg vx pf R lam b t ?s"
    unfolding bfs_core_def
    by (intro conjI) (rule env', rule dist', rule keys', rule srt', rule tree', rule topen')
  have du: "distance ?s ?u = Some (enat (lam ?u))"
  proof -
    from visited_disc [OF inv uv] obtain a where a: "distance s ?u = Some (enat a)"
      by (auto simp: disc_def)
    with dist low(2) have "a = lam ?u" by (simp add: dist_ok_def)
    with a show ?thesis by (simp add: after_pop_fields)
  qed
  have bounds: "\<forall>e \<in> set (queue ?s). snd (snd e) \<in> R \<longrightarrow>
      lam ?u \<le> lam (snd (snd e)) \<and> lam (snd (snd e)) \<le> lam ?u + 1"
  proof (intro ballI impI)
    fix e assume "e \<in> set (queue ?s)" and eR: "snd (snd e) \<in> R"
    with sub have e: "e \<in> set (queue s)" by blast
    from span [OF m e _ eR] low(2) have "lam (snd (snd e)) \<le> lam ?u + 1"
      by (simp add: current_of_def)
    with low(3) [OF e eR] show "lam ?u \<le> lam (snd (snd e)) \<and> lam (snd (snd e)) \<le> lam ?u + 1"
      by simp
  qed
  have below: "\<forall>w \<in> R. lam w < lam ?u \<longrightarrow> disc ?s w"
  proof (intro ballI impI)
    fix w assume w: "w \<in> R" "lam w < lam ?u"
    have "closed s w"
    proof (rule below_queue_closed [OF L inv tree nb w(1)])
      fix e assume "e \<in> set (queue s)" "snd (snd e) \<in> R"
      from low(3) [OF this] w(2) show "lam w < lam (snd (snd e))" by simp
    qed
    then show "disc ?s w" by (simp add: closed_def d)
  qed
  have nb': "nbrs_ok vx R (Some ?u) ?s"
    unfolding nbrs_ok_def
  proof (intro ballI impI)
    fix v x assume vR: "v \<in> R" and c: "closed ?s v \<and> Some v \<noteq> Some ?u"
      and x: "x \<in> set (neighbors vx v)" "x \<in> R"
    from c have "closed s v" by (auto simp: closed_def d after_pop_fields)
    with nb vR x have "disc s x" unfolding nbrs_ok_def by blast
    then show "disc ?s x" by (simp add: d)
  qed
  have unv: "?u \<notin> visited ?s" by (simp add: after_pop_fields)
  show ?thesis
    unfolding bfs_mid_def
    by (intro conjI) (rule core', rule low(2), rule du, rule unv, rule bounds, rule below, rule nb')
qed

lemma relax_no_error:
  assumes "distance s cur \<noteq> None" and "distance s n \<noteq> None" and "destination pf \<noteq> None"
  shows "fst (relax alg vx pf cur n s) = None"
  using assms by (auto simp: relax_def Let_def split: algorithm.splits)

lemma bfs_mid_update:
  assumes L: "layered alg vx pf R lam b t" and inv: "search_inv s"
    and M: "bfs_mid alg vx pf R lam b t u s" and w: "w \<in> set (neighbors vx u)"
    and dn: "distance s w = Some dn" and lt: "enat (Suc (lam u)) < dn"
    and cf: "came_from s' = (came_from s)(w \<mapsto> u)"
    and d: "distance s' = (distance s)(w \<mapsto> enat (Suc (lam u)))"
    and env: "pygame_init s' = pygame_init s" "events s' = events s"
    and q: "(w \<in> visited s \<and> queue s' = queue s \<and> visited s' = visited s)
       \<or> (w \<notin> visited s
           \<and> queue s' = queue s @ [(enat (Suc (lam u) + heur alg vx pf w), Suc (count s), w)]
           \<and> visited s' = insert w (visited s))"
  shows "bfs_mid alg vx pf R lam b t u s'"
proof -
  note core = bfs_midD(1) [OF M] and uR = bfs_midD(2) [OF M] and du = bfs_midD(3) [OF M]
    and unv = bfs_midD(4) [OF M] and nb = bfs_midD(5) [OF M] and bounds = bfs_midD(6) [OF M]
    and below = bfs_midD(7) [OF M]
  note envs = bfs_coreD(1) [OF core] and dist = bfs_coreD(2) [OF core]
    and keys = bfs_coreD(3) [OF core] and srt = bfs_coreD(4) [OF core]
    and tree = bfs_coreD(5) [OF core] and topen = bfs_coreD(6) [OF core]
  have ug: "u \<in> grid_set pf" using uR layeredD(5) [OF L] by blast
  have wg: "w \<in> grid_set pf" using ug w by (rule layeredD(7) [OF L])
  have lw: "lam w \<le> lam u + 1" using ug w by (rule layeredD(8) [OF L])
  have wu: "w \<noteq> u" using du dn lt by auto
  have wb: "w \<noteq> b"
  proof
    assume "w = b"
    with tree dn have "dn = 0" by (simp add: tree_ok_def)
    with lt show False by simp
  qed
  have dmono: "disc s v \<Longrightarrow> disc s' v" for v by (auto simp: disc_def d)
  have dsame: "v \<noteq> w \<Longrightarrow> disc s' v = disc s v" for v by (simp add: disc_def d)
  have vsub: "visited s \<subseteq> visited s'" using q by auto
  text \<open>A neighbour in the region is new and lies one layer up.\<close>
  have inR: "lam w = lam u + 1 \<and> w \<notin> visited s" if wR: "w \<in> R"
  proof -
    have nd: "\<not> disc s w"
    proof
      assume "disc s w"
      then obtain a where a: "dn = enat a" using dn by (auto simp: disc_def)
      with dist wR dn have "a = lam w" by (simp add: dist_ok_def)
      with a lt lw show False by simp
    qed
    then have "\<not> lam w < lam u" using below [OF wR] by blast
    with layeredD(9) [OF L uR w wR] have "lam w = lam u + 1" by auto
    moreover have "w \<notin> visited s" using nd visited_disc [OF inv] by blast
    ultimately show ?thesis by simp
  qed
  have env': "env_ok s'" using envs env by (simp add: env_ok_def)
  have dist': "dist_ok pf R lam s'"
    unfolding dist_ok_def
  proof (intro conjI ballI allI impI)
    fix v assume "v \<in> grid_set pf"
    with dist show "distance s' v \<noteq> None" by (simp add: dist_ok_def d)
  next
    fix v a assume "v \<in> grid_set pf" "distance s' v = Some (enat a)"
    with dist lw show "lam v \<le> a" by (cases "v = w") (auto simp: dist_ok_def d)
  next
    fix v a assume "v \<in> R" "distance s' v = Some (enat a)"
    with dist inR show "a = lam v" by (cases "v = w") (auto simp: dist_ok_def d)
  qed
  have newkey: "snd (snd e) \<in> grid_set pf
      \<and> (snd (snd e) \<in> R \<longrightarrow> fst e \<le> enat (key_of alg vx pf lam (snd (snd e))))
      \<and> (snd (snd e) \<in> R \<and> snd (snd e) \<noteq> b \<longrightarrow>
            fst e = enat (key_of alg vx pf lam (snd (snd e))))
      \<and> (snd (snd e) \<notin> R \<longrightarrow> enat (key_of alg vx pf lam (snd (snd e))) \<le> fst e)"
    if "e = (enat (Suc (lam u) + heur alg vx pf w), Suc (count s), w)" for e
    using that wg inR lw by (auto simp: key_of_def)
  have keys': "keys_ok alg vx pf R lam b s'"
    unfolding keys_ok_def
  proof
    fix e assume "e \<in> set (queue s')"
    with q have "e \<in> set (queue s)
        \<or> e = (enat (Suc (lam u) + heur alg vx pf w), Suc (count s), w)" by auto
    then show "snd (snd e) \<in> grid_set pf
      \<and> (snd (snd e) \<in> R \<longrightarrow> fst e \<le> enat (key_of alg vx pf lam (snd (snd e))))
      \<and> (snd (snd e) \<in> R \<and> snd (snd e) \<noteq> b \<longrightarrow>
            fst e = enat (key_of alg vx pf lam (snd (snd e))))
      \<and> (snd (snd e) \<notin> R \<longrightarrow> enat (key_of alg vx pf lam (snd (snd e))) \<le> fst e)"
      using keys newkey unfolding keys_ok_def by blast
  qed
  have cnt: "fst (snd e) \<le> count s" if "e \<in> set (queue s)" for e
    using inv that by (auto simp: search_inv_def counts_ok_def counts_of_def)
  have srt': "sorted_ok R lam s'"
    unfolding sorted_ok_def
  proof (intro ballI impI)
    fix e e' assume e: "e \<in> set (queue s')" and e': "e' \<in> set (queue s')"
      and h: "snd (snd e) \<in> R \<and> snd (snd e') \<in> R \<and> fst (snd e) < fst (snd e')"
    let ?n = "(enat (Suc (lam u) + heur alg vx pf w), Suc (count s), w)"
    from q e have eo: "e \<in> set (queue s) \<or> e = ?n" by auto
    from q e' have eo': "e' \<in> set (queue s) \<or> e' = ?n" by auto
    show "lam (snd (snd e)) \<le> lam (snd (snd e'))"
    proof (cases "e' = ?n")
      case False
      with eo' have o': "e' \<in> set (queue s)" by simp
      show ?thesis
      proof (cases "e = ?n")
        case True
        with h cnt [OF o'] show ?thesis by simp
      next
        case False
        with eo o' h srt show ?thesis unfolding sorted_ok_def by blast
      qed
    next
      case True
      with h have wR: "w \<in> R" by simp
      show ?thesis
      proof (cases "e = ?n")
        case e: True
        with True show ?thesis by simp
      next
        case False
        with eo have "e \<in> set (queue s)" by simp
        from bounds [OF this] h inR [OF wR] True show ?thesis by simp
      qed
    qed
  qed
  have tree': "tree_ok vx R lam b s'"
    unfolding tree_ok_def
  proof (intro conjI ballI allI impI)
    fix v p assume "v \<in> R" "came_from s' v = Some p"
    with tree uR inR show "p \<in> R" by (cases "v = w") (auto simp: tree_ok_def cf)
  next
    fix v p assume "v \<in> R" "came_from s' v = Some p"
    with tree uR inR show "lam v = lam p + 1" by (cases "v = w") (auto simp: tree_ok_def cf)
  next
    fix v assume "v \<in> R" "disc s' v \<and> v \<noteq> b"
    with tree dsame show "came_from s' v \<noteq> None" by (cases "v = w") (auto simp: tree_ok_def cf)
  next
    fix v p assume "came_from s' v = Some p"
    with tree w show "v \<in> set (neighbors vx p)" by (cases "v = w") (auto simp: tree_ok_def cf)
  next
    from tree wb show "came_from s' b = None" by (simp add: tree_ok_def cf)
    from tree wb show "distance s' b = Some 0" by (simp add: tree_ok_def d)
  qed
  have topen': "disc s' t \<longrightarrow> t \<in> visited s'"
  proof (cases "t = w")
    case True
    with inR layeredD(4) [OF L] q show ?thesis by auto
  next
    case False
    with topen dsame vsub show ?thesis by auto
  qed
  have core': "bfs_core alg vx pf R lam b t s'"
    unfolding bfs_core_def
    by (intro conjI) (rule env', rule dist', rule keys', rule srt', rule tree', rule topen')
  have du': "distance s' u = Some (enat (lam u))" using du wu by (simp add: d)
  have unv': "u \<notin> visited s'" using unv wu q by auto
  have bounds': "\<forall>e \<in> set (queue s'). snd (snd e) \<in> R \<longrightarrow>
      lam u \<le> lam (snd (snd e)) \<and> lam (snd (snd e)) \<le> lam u + 1"
  proof (intro ballI impI)
    fix e assume "e \<in> set (queue s')" and eR: "snd (snd e) \<in> R"
    with q have "e \<in> set (queue s)
        \<or> e = (enat (Suc (lam u) + heur alg vx pf w), Suc (count s), w)" by auto
    then show "lam u \<le> lam (snd (snd e)) \<and> lam (snd (snd e)) \<le> lam u + 1"
    proof
      assume "e \<in> set (queue s)"
      then show ?thesis using eR by (rule bounds)
    next
      assume "e = (enat (Suc (lam u) + heur alg vx pf w), Suc (count s), w)"
      with eR inR show ?thesis by simp
    qed
  qed
  have below': "\<forall>x \<in> R. lam x < lam u \<longrightarrow> disc s' x"
    using below dmono by blast
  have nb': "nbrs_ok vx R (Some u) s'"
    unfolding nbrs_ok_def
  proof (intro ballI impI)
    fix v x assume vR: "v \<in> R" and c: "closed s' v \<and> Some v \<noteq> Some u"
      and x: "x \<in> set (neighbors vx v)" "x \<in> R"
    from c have nv: "v \<notin> visited s'" and dv: "disc s' v" and vu: "v \<noteq> u"
      by (simp_all add: closed_def)
    have "v \<noteq> w"
    proof
      assume "v = w"
      with vR inR q nv show False by auto
    qed
    with dv dsame have "disc s v" by simp
    moreover have "v \<notin> visited s" using nv vsub by blast
    ultimately have "closed s v" by (simp add: closed_def)
    with nb vR vu x have "disc s x" unfolding nbrs_ok_def by blast
    then show "disc s' x" by (rule dmono)
  qed
  show ?thesis
    unfolding bfs_mid_def
    by (intro conjI) (rule core', rule uR, rule du', rule unv', rule bounds', rule below', rule nb')
qed

lemma relax_bfs_mid:
  assumes L: "layered alg vx pf R lam b t" and inv: "search_inv s"
    and M: "bfs_mid alg vx pf R lam b t u s" and w: "w \<in> set (neighbors vx u)"
    and r: "relax alg vx pf u w s = (r, s')"
  shows "r = None" and "bfs_mid alg vx pf R lam b t u s'" and "disc s' w"
    and "\<And>v. disc s v \<Longrightarrow> disc s' v"
proof -
  note core = bfs_midD(1) [OF M] and uR = bfs_midD(2) [OF M] and du = bfs_midD(3) [OF M]
  note dist = bfs_coreD(2) [OF core]
  have ug: "u \<in> grid_set pf" using uR layeredD(5) [OF L] by blast
  have wg: "w \<in> grid_set pf" using ug w by (rule layeredD(7) [OF L])
  from dist wg have dw: "distance s w \<noteq> None" by (simp add: dist_ok_def)
  have "fst (relax alg vx pf u w s) = None"
    by (rule relax_no_error) (simp_all add: du dw layeredD(2) [OF L])
  with r show rn: "r = None" by simp
  have "bfs_mid alg vx pf R lam b t u s' \<and> disc s' w \<and> (\<forall>v. disc s v \<longrightarrow> disc s' v)"
    using r
  proof (cases rule: relax_effect)
    case same
    with rn du have "\<exists>dn. distance s w = Some dn \<and> \<not> enat (lam u) + 1 < dn" by auto
    then obtain dn where "distance s w = Some dn" "\<not> enat (lam u) + 1 < dn" by blast
    then have "disc s w" by (cases dn) (auto simp: disc_def one_enat_def)
    with same M show ?thesis by simp
  next
    case (update dc dn fs)
    with du have dc: "dc = lam u" by simp
    from update(5) rn have v: "w \<in> visited s" by simp
    have "bfs_mid alg vx pf R lam b t u s'"
      by (rule bfs_mid_update [OF L inv M w update(2)])
        (simp_all add: update(3) [unfolded dc] update(4) dc v)
    moreover have "disc s' w" by (simp add: disc_def update(4))
    moreover have "\<forall>v. disc s v \<longrightarrow> disc s' v" by (auto simp: disc_def update(4))
    ultimately show ?thesis by blast
  next
    case (pushed dc dn fs)
    with du have dc: "dc = lam u" by simp
    have "bfs_mid alg vx pf R lam b t u s'"
      by (rule bfs_mid_update [OF L inv M w pushed(2)])
        (simp_all add: pushed(3) [unfolded dc] pushed(6) dc pushed(4) push_fields)
    moreover have "disc s' w" by (simp add: disc_def pushed(6) push_fields)
    moreover have "\<forall>v. disc s v \<longrightarrow> disc s' v" by (auto simp: disc_def pushed(6) push_fields)
    ultimately show ?thesis by blast
  qed
  then show "bfs_mid alg vx pf R lam b t u s'" and "disc s' w"
    and "\<And>v. disc s v \<Longrightarrow> disc s' v" by blast+
qed

lemma relax_all_bfs_mid:
  assumes L: "layered alg vx pf R lam b t"
  shows "search_inv s \<Longrightarrow> bfs_mid alg vx pf R lam b t u s \<Longrightarrow> set ns \<subseteq> set (neighbors vx u) \<Longrightarrow>
    relax_all alg vx pf u ns s = (r, s') \<Longrightarrow>
    r = None \<and> bfs_mid alg vx pf R lam b t u s' \<and> (\<forall>w \<in> set ns. disc s' w)
    \<and> (\<forall>v. disc s v \<longrightarrow> disc s' v)"
proof (induction ns arbitrary: s)
  case Nil
  then show ?case by simp
next
  case (Cons w ns)
  obtain r1 s1 where r1: "relax alg vx pf u w s = (r1, s1)"
    by (cases "relax alg vx pf u w s")
  from Cons.prems(3) have w: "w \<in> set (neighbors vx u)" and sub: "set ns \<subseteq> set (neighbors vx u)"
    by simp_all
  note step = relax_bfs_mid [OF L Cons.prems(1,2) w r1]
  have inv1: "search_inv s1" using relax_inv [OF Cons.prems(1) r1] by simp
  from Cons.prems(4) r1 step(1) have "relax_all alg vx pf u ns s1 = (r, s')" by simp
  from Cons.IH [OF inv1 step(2) sub this] step(3,4) show ?case by auto
qed

lemma expand_bfs_inv:
  assumes L: "layered alg vx pf R lam b t" and inv: "search_inv s"
    and M: "bfs_mid alg vx pf R lam b t u s" and e: "expand alg vx pf u s = (x, s')"
  shows "x = None" and "bfs_inv alg vx pf R lam b t s'"
proof -
  obtain r1 s1 where r1: "relax_all alg vx pf u (neighbors vx u) s = (r1, s1)"
    by (cases "relax_all alg vx pf u (neighbors vx u) s")
  from relax_all_bfs_mid [OF L inv M subset_refl r1]
  have rn: "r1 = None" and M1: "bfs_mid alg vx pf R lam b t u s1"
    and nd: "\<And>w. w \<in> set (neighbors vx u) \<Longrightarrow> disc s1 w" by blast+
  note core = bfs_midD(1) [OF M1] and uR = bfs_midD(2) [OF M1] and nb = bfs_midD(5) [OF M1]
    and bounds = bfs_midD(6) [OF M1]
  note env = bfs_coreD(1) [OF core]
  then have g: "gui_draw s1 = None" by (simp add: gui_draw_def env_ok_def)
  from e r1 rn g show "x = None" by (simp add: expand_def)
  have span: "\<forall>e \<in> set (queue s1). \<forall>e' \<in> set (queue s1).
      snd (snd e) \<in> R \<and> snd (snd e') \<in> R \<longrightarrow> lam (snd (snd e')) \<le> lam (snd (snd e)) + 1"
  proof (intro ballI impI)
    fix e e' assume "e \<in> set (queue s1)" "e' \<in> set (queue s1)"
      "snd (snd e) \<in> R \<and> snd (snd e') \<in> R"
    with bounds [of e] bounds [of e'] show "lam (snd (snd e')) \<le> lam (snd (snd e)) + 1"
      by simp
  qed
  have nb': "nbrs_ok vx R None s1"
    unfolding nbrs_ok_def
  proof (intro ballI impI)
    fix v x assume vR: "v \<in> R" and c: "closed s1 v \<and> Some v \<noteq> None"
      and x: "x \<in> set (neighbors vx v)" "x \<in> R"
    show "disc s1 x"
    proof (cases "v = u")
      case True
      with x(1) show ?thesis by (simp add: nd)
    next
      case False
      with nb vR c x show ?thesis unfolding nbrs_ok_def by blast
    qed
  qed
  have B1: "bfs_inv alg vx pf R lam b t s1"
    unfolding bfs_inv_def by (intro conjI) (rule core, rule span, rule nb')
  have s': "s' = s1 \<or> s' = s1\<lparr>states := make_visited u (states s1)\<rparr>"
    using e r1 rn g by (auto simp: expand_def split: if_splits)
  have "bfs_inv alg vx pf R lam b t (s1\<lparr>states := st\<rparr>) = bfs_inv alg vx pf R lam b t s1" for st
    by (simp add: bfs_inv_def bfs_core_def env_ok_def dist_ok_def keys_ok_def sorted_ok_def
        tree_ok_def nbrs_ok_def closed_def disc_def)
  with s' B1 show "bfs_inv alg vx pf R lam b t s'" by auto
qed

subsection \<open>Searching in layers: the whole search\<close>

lemma region_chain:
  assumes inv: "search_inv s" and tree: "tree_ok vx R lam b s" and lb: "lam b = 0"
  shows "v \<in> R \<Longrightarrow> disc s v \<Longrightarrow>
    \<exists>ps. chain (came_from s) v ps \<and> path_in vx v ps \<and> last (v # ps) = b \<and> length ps = lam v"
proof (induction "lam v" arbitrary: v rule: less_induct)
  case less
  show ?case
  proof (cases "came_from s v")
    case None
    with tree less.prems have "v = b" unfolding tree_ok_def by blast
    with None lb show ?thesis by (intro exI [of _ "[]"]) simp
  next
    case (Some p)
    with tree less.prems(1) have p: "p \<in> R" "lam v = lam p + 1" "v \<in> set (neighbors vx p)"
      unfolding tree_ok_def by blast+
    from inv Some have "disc s p" unfolding search_inv_def disc_def by blast
    from less.hyps [OF _ p(1) this] p(2)
    obtain ps where "chain (came_from s) p ps" "path_in vx p ps" "last (p # ps) = b"
      "length ps = lam p" by auto
    with Some p show ?thesis by (intro exI [of _ "p # ps"]) simp
  qed
qed

lemma finish_found:
  assumes "chain (came_from s) t ps" and "path_in vx t ps" and "last (t # ps) = b"
    and "length ps = n" and "pygame_init s" and "start pf = Some b"
  shows "\<exists>s'. finish pf t s = Some (Some (Inr True), s') \<and> found_path vx b t n s'"
proof -
  let ?st = "\<lambda>v. if v \<in> set ps then Path else states s v"
  let ?s' = "s\<lparr>states := make_start b ?st\<rparr>"
  have "reconstruct_path (pygame_init s) (came_from s) t (states s) = Some (None, ?st)"
    using reconstruct_path_chain [OF assms(1)] assms(5) by simp
  then have f: "finish pf t s = Some (Some (Inr True), ?s')"
    by (simp add: finish_def assms(6))
  have "list_all (\<lambda>v. v = b \<or> states ?s' v = Path) ps"
    by (simp add: list_all_iff make_apply)
  then have "found_path vx b t n ?s'"
    unfolding found_path_def using assms(1,2,3,4)
    by (intro exI [of _ ps]) (simp add: make_apply)
  with f show ?thesis by blast
qed

lemma bfs_iteration:
  assumes L: "layered alg vx pf R lam b t" and inv: "search_inv s"
    and B: "bfs_inv alg vx pf R lam b t s"
  shows "queue s \<noteq> []"
    and "current_of s = t \<Longrightarrow>
      \<exists>s'. iteration alg vx pf s = Some (Some (Inr True), s') \<and> found_path vx b t (lam t) s'"
    and "current_of s \<noteq> t \<Longrightarrow>
      \<exists>s'. iteration alg vx pf s = Some (None, s') \<and> bfs_inv alg vx pf R lam b t s'"
proof -
  note low = popped_lowest [OF L inv B]
  show ne: "queue s \<noteq> []" by (rule low(1))
  note core = bfs_invD(1) [OF B]
  have pg: "pygame_init s" using bfs_coreD(1) [OF core] by (simp add: env_ok_def)
  have ap: "search_inv (after_pop s)" using inv ne by (rule after_pop_inv)
  have d: "destination pf = Some t" by (rule layeredD(2) [OF L])
  {
    assume c: "current_of s = t"
    have "t \<in> visited s" using current_of_visited [OF inv ne] c by simp
    then have "disc s t" by (rule visited_disc [OF inv])
    then have dt: "disc (after_pop s) t" by (simp add: disc_def after_pop_fields)
    have tree: "tree_ok vx R lam b (after_pop s)"
      using bfs_coreD(5) [OF core] by (simp add: tree_ok_def disc_def after_pop_fields)
    from region_chain [OF ap tree layeredD(6) [OF L] layeredD(4) [OF L] dt]
    obtain ps where ps: "chain (came_from (after_pop s)) t ps" "path_in vx t ps"
      "last (t # ps) = b" "length ps = lam t" by blast
    have "env_ok (after_pop s)"
      using poll_events_env [OF bfs_coreD(1) [OF core]] by (simp add: env_ok_def after_pop_fields)
    then have "pygame_init (after_pop s)" by (simp add: env_ok_def)
    from finish_found [OF ps this layeredD(1) [OF L]]
    show "\<exists>s'. iteration alg vx pf s = Some (Some (Inr True), s') \<and> found_path vx b t (lam t) s'"
      unfolding iteration_unfold [OF inv ne] using pg c d by simp
  }
  {
    assume c: "current_of s \<noteq> t"
    have M: "bfs_mid alg vx pf R lam b t (current_of s) (after_pop s)"
      using L inv B c by (rule pop_bfs_mid)
    obtain x s' where e: "expand alg vx pf (current_of s) (after_pop s) = (x, s')"
      by (cases "expand alg vx pf (current_of s) (after_pop s)")
    from expand_bfs_inv [OF L ap M e] e
    show "\<exists>s'. iteration alg vx pf s = Some (None, s') \<and> bfs_inv alg vx pf R lam b t s'"
      unfolding iteration_unfold [OF inv ne] using pg c d by simp
  }
qed

lemma bfs_search_loop:
  assumes L: "layered alg vx pf R lam b t" and inv: "search_inv s"
    and B: "bfs_inv alg vx pf R lam b t s"
  shows "\<exists>s'. search_loop alg vx pf s = Some (Inr True, s') \<and> found_path vx b t (lam t) s'"
proof -
  have "\<exists>r s'. search_loop alg vx pf s = Some (r, s') \<and> (r = Inr True \<and> found_path vx b t (lam t) s')"
  proof (rule search_loop_total [OF inv, where J = "bfs_inv alg vx pf R lam b t"])
    show "bfs_inv alg vx pf R lam b t s" by (rule B)
  next
    fix s s' :: "'a search_state"
    assume i: "search_inv s" and J: "bfs_inv alg vx pf R lam b t s"
      and it: "iteration alg vx pf s = Some (None, s')"
    from bfs_iteration(2,3) [OF L i J] it show "bfs_inv alg vx pf R lam b t s'"
      by (cases "current_of s = t") auto
  next
    fix s :: "'a search_state"
    assume "search_inv s" "bfs_inv alg vx pf R lam b t s" "queue s = []"
    with bfs_iteration(1) [OF L] show "Inr False = Inr True \<and> found_path vx b t (lam t) s"
      by blast
  next
    fix s s' :: "'a search_state" and r
    assume i: "search_inv s" and J: "bfs_inv alg vx pf R lam b t s"
      and it: "iteration alg vx pf s = Some (Some r, s')"
    from bfs_iteration(2,3) [OF L i J] it show "r = Inr True \<and> found_path vx b t (lam t) s'"
      by (cases "current_of s = t") auto
  qed
  then show ?thesis by blast
qed

lemma bfs_inv_init:
  assumes L: "layered alg vx pf R lam b t" and ev: "\<forall>es \<in> set evs. QUIT \<notin> set es"
    and q: "queue s = [(0, 0, b)]" "visited s = {b}" "came_from s = Map.empty"
      "distance s = (all_inf pf)(b \<mapsto> 0)" "pygame_init s" "events s = evs"
  shows "bfs_inv alg vx pf R lam b t s"
proof -
  have bR: "b \<in> R" and bg: "b \<in> grid_set pf" and lb: "lam b = 0"
    using layeredD(3,5,6) [OF L] by auto
  have dv: "distance s v = (if v = b then Some 0 else all_inf pf v)" for v
    by (simp add: q(4))
  have fin: "distance s v = Some (enat a) \<longleftrightarrow> v = b \<and> a = 0" for v a
    by (auto simp: dv all_inf_def zero_enat_def)
  have dsc: "disc s v \<longleftrightarrow> v = b" for v by (simp add: disc_def fin)
  have "env_ok s" using ev q(5,6) by (simp add: env_ok_def)
  moreover have "dist_ok pf R lam s"
    unfolding dist_ok_def using lb by (auto simp: fin) (simp add: dv all_inf_def grid_set_def)
  moreover have "keys_ok alg vx pf R lam b s"
    using bg bR by (simp add: keys_ok_def q(1) zero_enat_def)
  moreover have "sorted_ok R lam s" by (simp add: sorted_ok_def q(1))
  moreover have "tree_ok vx R lam b s"
    by (simp add: tree_ok_def dsc q(3) dv)
  moreover have "disc s t \<longrightarrow> t \<in> visited s" by (simp add: dsc q(2))
  ultimately have core: "bfs_core alg vx pf R lam b t s"
    unfolding bfs_core_def by blast
  have nb: "nbrs_ok vx R None s" by (simp add: nbrs_ok_def closed_def dsc q(2))
  have span: "\<forall>e \<in> set (queue s). \<forall>e' \<in> set (queue s).
           snd (snd e) \<in> R \<and> snd (snd e') \<in> R \<longrightarrow> lam (snd (snd e')) \<le> lam (snd (snd e)) + 1"
    by (simp add: q(1))
  show ?thesis unfolding bfs_inv_def by (intro conjI) (rule core, rule span, rule nb)
qed

lemma layered_dijkstra:
  assumes "layered Dijkstra vx pf R lam b t" and "\<forall>es \<in> set evs. QUIT \<notin> set es"
  shows "\<exists>s'. dijkstra vx pf evs st = Some (Inr True, s') \<and> found_path vx b t (lam t) s'"
proof -
  have B: "bfs_inv Dijkstra vx pf R lam b t (dijkstra_init pf b evs st)"
    by (rule bfs_inv_init [OF assms]) (simp_all add: dijkstra_init_def)
  from bfs_search_loop [OF assms(1) dijkstra_init_inv B] layeredD(1) [OF assms(1)]
  show ?thesis by (simp add: dijkstra_def)
qed

lemma layered_a_star:
  assumes "layered AStar vx pf R lam b t" and "\<forall>es \<in> set evs. QUIT \<notin> set es"
  shows "\<exists>s'. a_star_search vx pf evs st = Some (Inr True, s') \<and> found_path vx b t (lam t) s'"
proof -
  have B: "bfs_inv AStar vx pf R lam b t (a_star_init vx pf b t evs st)"
    by (rule bfs_inv_init [OF assms]) (simp_all add: a_star_init_def)
  from bfs_search_loop [OF assms(1) a_star_init_inv B] layeredD(1,2) [OF assms(1)]
  show ?thesis by (simp add: a_star_search_def)
qed

subsection \<open>The layers of a grid without walls\<close>

lemma manhatten_distance_alt:
  "manhatten_distance p q = \<bar>fst p - fst q\<bar> + \<bar>snd p - snd q\<bar>"
  by (cases p; cases q) simp

lemma unit_step:
  fixes a c :: int
  assumes "\<bar>a\<bar> + \<bar>c\<bar> = 1"
  shows "(a = 1 \<and> c = 0) \<or> (a = - 1 \<and> c = 0) \<or> (a = 0 \<and> c = 1) \<or> (a = 0 \<and> c = - 1)"
  using assms by arith

lemma grid_vertex:
  assumes W: "wall_free_grid vx pf" and v: "v \<in> grid_set pf"
  shows "\<exists>r c. r < length (grid pf) \<and> c < length (grid pf) \<and> v = grid pf ! r ! c
    \<and> get_position vx v = (int r, int c)"
proof -
  from v obtain row where row: "row \<in> set (grid pf)" "v \<in> set row"
    by (auto simp: grid_set_def)
  from row(1) obtain r where r: "r < length (grid pf)" "row = grid pf ! r"
    by (auto simp: in_set_conv_nth)
  from W row(1) have len: "length row = length (grid pf)" by (simp add: wall_free_grid_def)
  from row(2) obtain c where c: "c < length row" "v = row ! c"
    by (auto simp: in_set_conv_nth)
  from W r c len have "get_position vx v = (int r, int c)" by (simp add: wall_free_grid_def)
  with r c len show ?thesis by auto
qed

lemma grid_cell:
  assumes W: "wall_free_grid vx pf" and x: "0 \<le> x" "x < int (length (grid pf))"
    and y: "0 \<le> y" "y < int (length (grid pf))"
  shows "\<exists>v \<in> grid_set pf. get_position vx v = (x, y)"
proof -
  let ?r = "nat x" and ?c = "nat y"
  have r: "?r < length (grid pf)" and c: "?c < length (grid pf)" using x y by auto
  have row: "grid pf ! ?r \<in> set (grid pf)" using r by simp
  with W have "length (grid pf ! ?r) = length (grid pf)" by (simp add: wall_free_grid_def)
  with c have "grid pf ! ?r ! ?c \<in> set (grid pf ! ?r)" by simp
  with row have "grid pf ! ?r ! ?c \<in> grid_set pf" by (auto simp: grid_set_def)
  moreover from W r c have "get_position vx (grid pf ! ?r ! ?c) = (int ?r, int ?c)"
    by (simp add: wall_free_grid_def)
  ultimately show ?thesis using x y by auto
qed

lemma grid_range:
  assumes "wall_free_grid vx pf" and "v \<in> grid_set pf"
  shows "0 \<le> fst (get_position vx v)" and "fst (get_position vx v) < int (length (grid pf))"
    and "0 \<le> snd (get_position vx v)" and "snd (get_position vx v) < int (length (grid pf))"
  using grid_vertex [OF assms] by auto

lemma grid_inj:
  assumes W: "wall_free_grid vx pf" and "v \<in> grid_set pf" and "w \<in> grid_set pf"
    and "get_position vx v = get_position vx w"
  shows "v = w"
  using grid_vertex [OF W assms(2)] grid_vertex [OF W assms(3)] assms(4) by auto

lemma grid_neighbors:
  assumes "wall_free_grid vx pf" and "u \<in> grid_set pf"
  shows "w \<in> set (neighbors vx u) \<longleftrightarrow>
    w \<in> grid_set pf \<and> manhatten_distance (get_position vx u) (get_position vx w) = 1"
  using assms by (simp add: wall_free_grid_def)

lemma neighbor_layer:
  assumes W: "wall_free_grid vx pf" and u: "u \<in> grid_set pf" and w: "w \<in> set (neighbors vx u)"
  shows "layer vx b w = layer vx b u + 1 \<or> layer vx b u = layer vx b w + 1"
proof -
  from w have "manhatten_distance (get_position vx u) (get_position vx w) = 1"
    by (simp add: grid_neighbors [OF W u])
  then have "\<bar>fst (get_position vx u) - fst (get_position vx w)\<bar>
      + \<bar>snd (get_position vx u) - snd (get_position vx w)\<bar> = 1"
    by (simp add: manhatten_distance_alt)
  from unit_step [OF this] show ?thesis
    unfolding layer_def manhatten_distance_alt by arith
qed

lemma layer_triangle:
  "layer vx b t \<le> layer vx b v + layer vx v t"
proof -
  have "manhatten_distance p r \<le> manhatten_distance p q + manhatten_distance q r" for p q r
    by (cases p; cases q; cases r) simp
  from this [of "get_position vx b" "get_position vx t" "get_position vx v"]
  show ?thesis unfolding layer_def by linarith
qed

lemma manhatten_distance_nonneg: "0 \<le> manhatten_distance p q"
  by (cases p; cases q) simp

lemma layer_sum:
  "layer vx b v + layer vx v t = layer vx b t \<longleftrightarrow>
     manhatten_distance (get_position vx b) (get_position vx v)
       + manhatten_distance (get_position vx v) (get_position vx t)
     = manhatten_distance (get_position vx b) (get_position vx t)"
  unfolding layer_def
  using manhatten_distance_nonneg [of "get_position vx b" "get_position vx v"]
    manhatten_distance_nonneg [of "get_position vx v" "get_position vx t"]
    manhatten_distance_nonneg [of "get_position vx b" "get_position vx t"]
  by linarith

lemma layer_Suc:
  assumes "manhatten_distance (get_position vx b) (get_position vx v)
     = manhatten_distance (get_position vx b) (get_position vx u) + 1"
  shows "layer vx b v = layer vx b u + 1"
  unfolding layer_def
  using assms manhatten_distance_nonneg [of "get_position vx b" "get_position vx u"]
  by linarith

lemma step_axis:
  fixes x :: int
  assumes "x \<noteq> bx" and "x' = (if x < bx then x + 1 else x - 1)"
  shows "\<bar>bx - x\<bar> = \<bar>bx - x'\<bar> + 1" and "\<bar>x' - x\<bar> = 1"
    and "min x bx \<le> x'" and "x' \<le> max x bx"
    and "\<bar>bx - x\<bar> + \<bar>x - tx\<bar> \<le> \<bar>bx - tx\<bar> \<Longrightarrow> \<bar>bx - x'\<bar> + \<bar>x' - tx\<bar> = \<bar>bx - x\<bar> + \<bar>x - tx\<bar>"
proof -
  show "\<bar>bx - x\<bar> = \<bar>bx - x'\<bar> + 1" using assms by (simp split: if_splits)
  show "\<bar>x' - x\<bar> = 1" using assms by (simp split: if_splits)
  show "min x bx \<le> x'" using assms by (simp split: if_splits)
  show "x' \<le> max x bx" using assms by (simp split: if_splits)
  assume a: "\<bar>bx - x\<bar> + \<bar>x - tx\<bar> \<le> \<bar>bx - tx\<bar>"
  show "\<bar>bx - x'\<bar> + \<bar>x' - tx\<bar> = \<bar>bx - x\<bar> + \<bar>x - tx\<bar>"
  proof (cases "x < bx")
    case True
    with a have "tx \<le> x" by linarith
    with True assms(2) show ?thesis by simp
  next
    case False
    with assms(1) have "bx < x" by simp
    with a have "x \<le> tx" by linarith
    with \<open>bx < x\<close> assms(2) show ?thesis by simp
  qed
qed

lemma axis_triangle:
  fixes x :: int
  shows "\<bar>bx - tx\<bar> \<le> \<bar>bx - x\<bar> + \<bar>x - tx\<bar>"
  by linarith

lemma axis_tight:
  fixes a :: int
  assumes "a + d1 + (c + d2) = m + d3" and "d3 \<le> d1 + d2"
  shows "a + c \<le> m"
  using assms by linarith

lemma axis_swap:
  fixes a :: int
  assumes "a + d1 + (c + d2) = m + d3" and "a' + c' = a + c"
  shows "a' + d1 + (c' + d2) = m + d3"
  using assms by linarith

lemma axis_tight2:
  fixes a :: int
  assumes "d1 + a + (d2 + c) = d3 + m" and "d3 \<le> d1 + d2"
  shows "a + c \<le> m"
  using assms by linarith

lemma axis_swap2:
  fixes a :: int
  assumes "d1 + a + (d2 + c) = d3 + m" and "a' + c' = a + c"
  shows "d1 + a' + (d2 + c') = d3 + m"
  using assms by linarith

lemma step_back_pos:
  assumes ne: "p \<noteq> b"
  shows "\<exists>q. manhatten_distance q p = 1
    \<and> manhatten_distance b p = manhatten_distance b q + 1
    \<and> min (fst p) (fst b) \<le> fst q \<and> fst q \<le> max (fst p) (fst b)
    \<and> min (snd p) (snd b) \<le> snd q \<and> snd q \<le> max (snd p) (snd b)
    \<and> (manhatten_distance b p + manhatten_distance p t = manhatten_distance b t \<longrightarrow>
         manhatten_distance b q + manhatten_distance q t = manhatten_distance b t)"
proof -
  obtain x y where p: "p = (x, y)" by (cases p)
  obtain bx by' where b: "b = (bx, by')" by (cases b)
  obtain tx ty where t: "t = (tx, ty)" by (cases t)
  show ?thesis
  proof (cases "x = bx")
    case False
    define x' where "x' = (if x < bx then x + 1 else x - 1)"
    note s = step_axis [OF False x'_def]
    have "\<bar>bx - x'\<bar> + \<bar>by' - y\<bar> + (\<bar>x' - tx\<bar> + \<bar>y - ty\<bar>) = \<bar>bx - tx\<bar> + \<bar>by' - ty\<bar>"
      if e: "\<bar>bx - x\<bar> + \<bar>by' - y\<bar> + (\<bar>x - tx\<bar> + \<bar>y - ty\<bar>) = \<bar>bx - tx\<bar> + \<bar>by' - ty\<bar>"
      by (rule axis_swap [OF e s(5) [OF axis_tight [OF e axis_triangle]]])
    then have 5: "manhatten_distance b p + manhatten_distance p t = manhatten_distance b t \<longrightarrow>
         manhatten_distance b (x', y) + manhatten_distance (x', y) t = manhatten_distance b t"
      unfolding p b t manhatten_distance.simps by (rule impI)
    have 1: "manhatten_distance (x', y) p = 1"
      unfolding p manhatten_distance.simps s(2) by simp
    have 2: "manhatten_distance b p = manhatten_distance b (x', y) + 1"
      unfolding p b manhatten_distance.simps s(1) by simp
    have 3: "min (fst p) (fst b) \<le> fst (x', y)" "fst (x', y) \<le> max (fst p) (fst b)"
      unfolding p b fst_conv by (rule s(3), rule s(4))
    have 4: "min (snd p) (snd b) \<le> snd (x', y)" "snd (x', y) \<le> max (snd p) (snd b)"
      unfolding p b snd_conv by simp_all
    show ?thesis
      by (rule exI [of _ "(x', y)"], intro conjI)
        (rule 1, rule 2, rule 3, rule 3, rule 4, rule 4, rule 5)
  next
    case True
    with ne p b have False: "y \<noteq> by'" by simp
    define y' where "y' = (if y < by' then y + 1 else y - 1)"
    note s = step_axis [OF False y'_def]
    have "\<bar>bx - x\<bar> + \<bar>by' - y'\<bar> + (\<bar>x - tx\<bar> + \<bar>y' - ty\<bar>) = \<bar>bx - tx\<bar> + \<bar>by' - ty\<bar>"
      if e: "\<bar>bx - x\<bar> + \<bar>by' - y\<bar> + (\<bar>x - tx\<bar> + \<bar>y - ty\<bar>) = \<bar>bx - tx\<bar> + \<bar>by' - ty\<bar>"
      by (rule axis_swap2 [OF e s(5) [OF axis_tight2 [OF e axis_triangle]]])
    then have 5: "manhatten_distance b p + manhatten_distance p t = manhatten_distance b t \<longrightarrow>
         manhatten_distance b (x, y') + manhatten_distance (x, y') t = manhatten_distance b t"
      unfolding p b t manhatten_distance.simps by (rule impI)
    have 1: "manhatten_distance (x, y') p = 1"
      unfolding p manhatten_distance.simps s(2) by simp
    have 2: "manhatten_distance b p = manhatten_distance b (x, y') + 1"
      unfolding p b manhatten_distance.simps s(1) by simp
    have 3: "min (snd p) (snd b) \<le> snd (x, y')" "snd (x, y') \<le> max (snd p) (snd b)"
      unfolding p b snd_conv by (rule s(3), rule s(4))
    have 4: "min (fst p) (fst b) \<le> fst (x, y')" "fst (x, y') \<le> max (fst p) (fst b)"
      unfolding p b fst_conv by simp_all
    show ?thesis
      by (rule exI [of _ "(x, y')"], intro conjI)
        (rule 1, rule 2, rule 4, rule 4, rule 3, rule 3, rule 5)
  qed
qed

lemma step_back:
  assumes W: "wall_free_grid vx pf" and v: "v \<in> grid_set pf" and b: "b \<in> grid_set pf"
    and ne: "v \<noteq> b"
  shows "\<exists>u \<in> grid_set pf. v \<in> set (neighbors vx u) \<and> layer vx b v = layer vx b u + 1
    \<and> (layer vx b v + layer vx v t = layer vx b t \<longrightarrow>
         layer vx b u + layer vx u t = layer vx b t)"
proof -
  from ne grid_inj [OF W v b] have "get_position vx v \<noteq> get_position vx b" by blast
  from step_back_pos [OF this, of "get_position vx t"]
  obtain q where q: "manhatten_distance q (get_position vx v) = 1"
    "manhatten_distance (get_position vx b) (get_position vx v)
       = manhatten_distance (get_position vx b) q + 1"
    "min (fst (get_position vx v)) (fst (get_position vx b)) \<le> fst q"
    "fst q \<le> max (fst (get_position vx v)) (fst (get_position vx b))"
    "min (snd (get_position vx v)) (snd (get_position vx b)) \<le> snd q"
    "snd q \<le> max (snd (get_position vx v)) (snd (get_position vx b))"
    "manhatten_distance (get_position vx b) (get_position vx v)
         + manhatten_distance (get_position vx v) (get_position vx t)
       = manhatten_distance (get_position vx b) (get_position vx t) \<longrightarrow>
     manhatten_distance (get_position vx b) q + manhatten_distance q (get_position vx t)
       = manhatten_distance (get_position vx b) (get_position vx t)"
    by blast
  have "0 \<le> fst q" "fst q < int (length (grid pf))" "0 \<le> snd q" "snd q < int (length (grid pf))"
    using q(3-6) grid_range [OF W v] grid_range [OF W b] by linarith+
  from grid_cell [OF W this] obtain u where u: "u \<in> grid_set pf" "get_position vx u = q"
    by auto
  from q(1) v have n: "v \<in> set (neighbors vx u)" by (simp add: grid_neighbors [OF W u(1)] u(2))
  have l: "layer vx b v = layer vx b u + 1" using q(2) by (intro layer_Suc) (simp add: u(2))
  have "layer vx b v + layer vx v t = layer vx b t \<longrightarrow>
         layer vx b u + layer vx u t = layer vx b t"
    using q(7) by (simp add: layer_sum u(2))
  with u(1) n l show ?thesis by blast
qed

lemma key_of_dijkstra: "key_of Dijkstra vx pf lam v = lam v"
  by (simp add: key_of_def heur_def)

lemma key_of_a_star:
  "destination pf = Some t \<Longrightarrow> key_of AStar vx pf (layer vx b) v = layer vx b v + layer vx v t"
  by (simp add: key_of_def heur_def layer_def)

lemma layer_self: "layer vx b b = 0"
  by (simp add: layer_def manhatten_distance_alt)

lemma layered_grid_dijkstra:
  assumes W: "wall_free_grid vx pf" and sb: "start pf = Some b" and dt: "destination pf = Some t"
    and b: "b \<in> grid_set pf" and t: "t \<in> grid_set pf"
  shows "layered Dijkstra vx pf (grid_set pf) (layer vx b) b t"
proof -
  have 7: "\<forall>u \<in> grid_set pf. set (neighbors vx u) \<subseteq> grid_set pf"
    using grid_neighbors [OF W] by blast
  have 8: "\<forall>u \<in> grid_set pf. \<forall>w \<in> set (neighbors vx u). layer vx b w \<le> layer vx b u + 1"
    using neighbor_layer [OF W, of _ _ b] by fastforce
  have 9: "\<forall>u \<in> grid_set pf. \<forall>w \<in> set (neighbors vx u). w \<in> grid_set pf \<longrightarrow>
      layer vx b w = layer vx b u + 1 \<or> layer vx b u = layer vx b w + 1"
    using neighbor_layer [OF W, of _ _ b] by blast
  have 10: "\<forall>v \<in> grid_set pf. v \<noteq> b \<longrightarrow>
      (\<exists>u \<in> grid_set pf. v \<in> set (neighbors vx u) \<and> layer vx b v = layer vx b u + 1)"
    using step_back [OF W _ b] by blast
  have 11: "\<forall>u \<in> grid_set pf. \<forall>u' \<in> grid_set pf. layer vx b u \<le> layer vx b u' \<longrightarrow>
      key_of Dijkstra vx pf (layer vx b) u \<le> key_of Dijkstra vx pf (layer vx b) u'"
    by (simp add: key_of_dijkstra)
  have 12: "\<forall>v \<in> grid_set pf - grid_set pf. \<forall>u \<in> grid_set pf.
      key_of Dijkstra vx pf (layer vx b) u < key_of Dijkstra vx pf (layer vx b) v"
    by simp
  show ?thesis unfolding layered_def
    by (intro conjI) (rule sb, rule dt, rule b, rule t, rule subset_refl, rule layer_self,
      rule 7, rule 8, rule 9, rule 10, rule 11, rule 12)
qed

lemma layered_grid_a_star:
  assumes W: "wall_free_grid vx pf" and sb: "start pf = Some b" and dt: "destination pf = Some t"
    and b: "b \<in> grid_set pf" and t: "t \<in> grid_set pf"
  shows "layered AStar vx pf (between vx pf b t) (layer vx b) b t"
proof -
  let ?R = "between vx pf b t"
  have bR: "b \<in> ?R" using b by (simp add: between_def layer_self)
  have tR: "t \<in> ?R" using t by (simp add: between_def layer_self)
  have sub: "?R \<subseteq> grid_set pf" by (auto simp: between_def)
  have 7: "\<forall>u \<in> grid_set pf. set (neighbors vx u) \<subseteq> grid_set pf"
    using grid_neighbors [OF W] by blast
  have 8: "\<forall>u \<in> grid_set pf. \<forall>w \<in> set (neighbors vx u). layer vx b w \<le> layer vx b u + 1"
    using neighbor_layer [OF W, of _ _ b] by fastforce
  have 9: "\<forall>u \<in> ?R. \<forall>w \<in> set (neighbors vx u). w \<in> ?R \<longrightarrow>
      layer vx b w = layer vx b u + 1 \<or> layer vx b u = layer vx b w + 1"
    using neighbor_layer [OF W, of _ _ b] sub by blast
  have 10: "\<forall>v \<in> ?R. v \<noteq> b \<longrightarrow>
      (\<exists>u \<in> ?R. v \<in> set (neighbors vx u) \<and> layer vx b v = layer vx b u + 1)"
  proof (intro ballI impI)
    fix v assume v: "v \<in> ?R" and ne: "v \<noteq> b"
    then have vg: "v \<in> grid_set pf" and e: "layer vx b v + layer vx v t = layer vx b t"
      by (simp_all add: between_def)
    from step_back [OF W vg b ne, of t] e
    obtain u where "u \<in> grid_set pf" "v \<in> set (neighbors vx u)"
      "layer vx b v = layer vx b u + 1" "layer vx b u + layer vx u t = layer vx b t" by blast
    then show "\<exists>u \<in> ?R. v \<in> set (neighbors vx u) \<and> layer vx b v = layer vx b u + 1"
      by (intro bexI [of _ u]) (simp_all add: between_def)
  qed
  have key: "key_of AStar vx pf (layer vx b) u = layer vx b t" if "u \<in> ?R" for u
    using that by (simp add: key_of_a_star [OF dt] between_def)
  have 11: "\<forall>u \<in> ?R. \<forall>u' \<in> ?R. layer vx b u \<le> layer vx b u' \<longrightarrow>
      key_of AStar vx pf (layer vx b) u \<le> key_of AStar vx pf (layer vx b) u'"
    by (simp add: key)
  have 12: "\<forall>v \<in> grid_set pf - ?R. \<forall>u \<in> ?R.
      key_of AStar vx pf (layer vx b) u < key_of AStar vx pf (layer vx b) v"
  proof (intro ballI)
    fix v u assume v: "v \<in> grid_set pf - ?R" and u: "u \<in> ?R"
    from v have "layer vx b v + layer vx v t \<noteq> layer vx b t" by (simp add: between_def)
    with layer_triangle [of vx b t v] have "layer vx b t < layer vx b v + layer vx v t" by simp
    moreover from u have "layer vx b u + layer vx u t = layer vx b t" by (simp add: between_def)
    ultimately show "key_of AStar vx pf (layer vx b) u < key_of AStar vx pf (layer vx b) v"
      by (simp add: key_of_a_star [OF dt])
  qed
  show ?thesis unfolding layered_def
    by (intro conjI) (rule sb, rule dt, rule bR, rule tR, rule sub, rule layer_self,
      rule 7, rule 8, rule 9, rule 10, rule 11, rule 12)
qed

subsection \<open>The grid of the user interface is one\<close>

lemma wall_free_initialize_grid:
  "wall_free_grid (grid_vertices n fresh) \<lparr>grid = initialize_grid n, start = sb, destination = sd\<rparr>"
proof -
  let ?pf = "\<lparr>grid = initialize_grid n, start = sb, destination = sd\<rparr>"
  have g: "grid ?pf = initialize_grid n" by simp
  have len: "length (initialize_grid n) = n" by (simp add: initialize_grid_def)
  have 1: "\<forall>row \<in> set (grid ?pf). length row = length (grid ?pf)"
    unfolding g len by (auto simp: initialize_grid_def)
  have 2: "\<forall>r < length (grid ?pf). \<forall>c < length (grid ?pf).
      get_position (grid_vertices n fresh) (grid ?pf ! r ! c) = (int r, int c)"
    unfolding g len by (simp add: initialize_grid_def grid_vertices_def)
  have 3: "\<forall>v \<in> grid_set ?pf. set (neighbors (grid_vertices n fresh) v)
      = {w \<in> grid_set ?pf. manhatten_distance (get_position (grid_vertices n fresh) v)
           (get_position (grid_vertices n fresh) w) = 1}"
    unfolding grid_set_def g by (simp add: grid_vertices_def update_neighbors_set)
  show ?thesis unfolding wall_free_grid_def by (intro conjI) (rule 1, rule 2, rule 3)
qed

subsection \<open>Both searches find a shortest path on a grid without walls\<close>

text \<open>
  Claim C4. On a square grid without walls, with start and destination in the grid and
  no quit event to come, \<^verbatim>\<open>dijkstra\<close> and \<^verbatim>\<open>a_star_search\<close> both return True, and each leaves
  a path from the start to the destination, read back from the destination through
  \<^verbatim>\<open>came_from\<close> (there is only one such chain, by \<open>chain_unique\<close>), whose number of steps is
  the Manhattan distance between the two; its vertices are marked Path, and the start is
  marked Start. This holds for every order of the neighbour lists.
\<close>

theorem wall_free_searches_agree:
  assumes "wall_free_grid vx pf" and "start pf = Some b" and "destination pf = Some t"
    and "b \<in> grid_set pf" and "t \<in> grid_set pf" and "\<forall>es \<in> set evs. QUIT \<notin> set es"
  shows "\<exists>s1 s2. dijkstra vx pf evs st = Some (Inr True, s1)
    \<and> a_star_search vx pf evs st = Some (Inr True, s2)
    \<and> found_path vx b t (nat (manhatten_distance (get_position vx b) (get_position vx t))) s1
    \<and> found_path vx b t (nat (manhatten_distance (get_position vx b) (get_position vx t))) s2"
proof -
  from layered_dijkstra [OF layered_grid_dijkstra [OF assms(1-5)] assms(6), of st]
  obtain s1 where 1: "dijkstra vx pf evs st = Some (Inr True, s1)"
    "found_path vx b t (layer vx b t) s1" by blast
  from layered_a_star [OF layered_grid_a_star [OF assms(1-5)] assms(6), of st]
  obtain s2 where 2: "a_star_search vx pf evs st = Some (Inr True, s2)"
    "found_path vx b t (layer vx b t) s2" by blast
  from 1 2 show ?thesis unfolding layer_def by blast
qed

theorem wall_free_searches_agree_witness:
  "\<exists>s1 s2. dijkstra (grid_vertices 5 fresh) empty_grid_example [[OTHER]] fresh = Some (Inr True, s1)
    \<and> a_star_search (grid_vertices 5 fresh) empty_grid_example [[OTHER]] fresh
        = Some (Inr True, s2)
    \<and> found_path (grid_vertices 5 fresh) (0, 0) (4, 4) 8 s1
    \<and> found_path (grid_vertices 5 fresh) (0, 0) (4, 4) 8 s2"
proof -
  have w: "wall_free_grid (grid_vertices 5 fresh) empty_grid_example"
    unfolding empty_grid_example_def by (rule wall_free_initialize_grid)
  have s: "start empty_grid_example = Some (0, 0)"
    and d: "destination empty_grid_example = Some (4, 4)"
    by (simp_all add: empty_grid_example_def)
  have g: "grid_set empty_grid_example = set (concat (initialize_grid 5))"
    by (simp add: grid_set_def empty_grid_example_def)
  have b: "(0, 0) \<in> grid_set empty_grid_example" unfolding g initialize_grid_mem by simp
  have t: "(4, 4) \<in> grid_set empty_grid_example" unfolding g initialize_grid_mem by simp
  have e: "\<forall>es \<in> set [[OTHER]]. QUIT \<notin> set es" by simp
  have n: "nat (manhatten_distance (get_position (grid_vertices 5 fresh) (0, 0))
      (get_position (grid_vertices 5 fresh) (4, 4))) = 8"
    by (simp add: grid_vertices_def)
  from wall_free_searches_agree [OF w s d b t e, of fresh] show ?thesis unfolding n .
qed

end
